theory Spec2Isabelle
  imports Main "HOL-Library.Word" "HOL-Library.Multiset"
begin

section \<open>The framing protocol parser (\<open>ProtocolParser\<close>, \<open>ConsumeResults\<close>)\<close>

text \<open>
  Bytes are 8-bit words. The unsigned 32-bit fields of the parser (\<open>size_buff_have\<close>,
  \<open>is_reading[0..1]\<close>, \<open>so_far\<close>) and the \<open>size_t\<close> values are natural numbers with the
  wrap-around of the C++ types written out (\<open>mod 2 ^ 32\<close>, \<open>mod 2 ^ 64\<close>).
\<close>

type_synonym byte = "8 word"

record ConsumeResults =
  to_write :: nat
  count :: nat

definition no_results :: ConsumeResults where
  "no_results = \<lparr>to_write = 0, count = 0\<rparr>"

record ProtocolParser =
  size_buff_have :: nat
  is_reading :: "nat \<times> nat"
  size_buff :: "byte list"
  so_far :: nat

text \<open>
  A newly constructed parser: the member initialisers give \<open>size_buff_have = 0\<close>,
  \<open>is_reading = {{0}}\<close> and \<open>so_far = 0\<close>; \<open>size_buff\<close> has no initialiser, so its eight
  bytes are a parameter.
\<close>

definition fresh_parser :: "byte list \<Rightarrow> ProtocolParser" where
  "fresh_parser sb = \<lparr>size_buff_have = 0, is_reading = (0, 0), size_buff = sb, so_far = 0\<rparr>"

text \<open>Little-endian value of a byte string (the host order the \<open>memcpy\<close> into \<open>is_reading\<close> assumes).\<close>

fun le_val :: "byte list \<Rightarrow> nat" where
  "le_val [] = 0"
| "le_val (b # bs) = unat b + 256 * le_val bs"

text \<open>The four bytes of an unsigned 32-bit value, least significant first.\<close>

definition le32_bytes :: "nat \<Rightarrow> byte list" where
  "le32_bytes x = [of_nat x, of_nat (x div 256), of_nat (x div 65536), of_nat (x div 16777216)]"

text \<open>\<open>memcpy(&is_reading, src, sizeof(is_reading))\<close>: two 32-bit words from eight bytes.\<close>

definition load_is_reading :: "byte list \<Rightarrow> nat \<times> nat" where
  "load_is_reading bs = (le_val (take 4 bs), le_val (take 4 (drop 4 bs)))"

text \<open>
  The argument \<open>data\<close> points into a buffer of the caller; \<open>mem\<close> is that buffer from the
  initial \<open>data\<close> on, and the moving pointer is an offset \<open>d\<close> into it. Reading \<open>k\<close> bytes at
  \<open>data\<close> is defined only inside the buffer; a read outside it has no defined result
  (\<open>None\<close>).
\<close>

definition mem_read :: "byte list \<Rightarrow> nat \<Rightarrow> nat \<Rightarrow> byte list option" where
  "mem_read mem d k = (if d + k \<le> length mem then Some (take k (drop d mem)) else None)"

text \<open>\<open>memcpy(size_buff + have, src, k)\<close>, defined only inside the eight bytes of \<open>size_buff\<close>.\<close>

definition size_buff_store :: "byte list \<Rightarrow> nat \<Rightarrow> byte list \<Rightarrow> byte list option" where
  "size_buff_store sb have bs =
     (if have + length bs \<le> length sb
      then Some (take have sb @ bs @ drop (have + length bs) sb) else None)"

text \<open>The header part of one loop iteration (the body of \<open>if (!is_reading[0])\<close>).\<close>

definition read_size :: "byte list \<Rightarrow> nat \<Rightarrow> nat \<Rightarrow> ProtocolParser \<Rightarrow> ProtocolParser option" where
  "read_size mem d n p =
     (if fst (is_reading p) \<noteq> 0 then Some p
      else if 8 \<le> n \<and> size_buff_have p = 0 then
        (case mem_read mem d 8 of
           None \<Rightarrow> None
         | Some bs \<Rightarrow> Some (p\<lparr>size_buff_have := 8, is_reading := load_is_reading bs\<rparr>))
      else
        (let size_buff_add = min (n mod 2 ^ 32) (nat ((8 - int (size_buff_have p)) mod 2 ^ 32)) in
         case mem_read mem d size_buff_add of
           None \<Rightarrow> None
         | Some bs \<Rightarrow>
             (case size_buff_store (size_buff p) (size_buff_have p) bs of
                None \<Rightarrow> None
              | Some sb \<Rightarrow>
                  (let have = (size_buff_have p + size_buff_add) mod 2 ^ 32 in
                   Some (p\<lparr>size_buff_have := have, size_buff := sb,
                            is_reading := (if 8 \<le> have then load_is_reading sb
                                           else is_reading p)\<rparr>)))))"

text \<open>
  The \<open>while (n > 0)\<close> loop of \<open>consume\<close>. On a completed frame the source executes
  \<open>data += n\<close> with the old \<open>n\<close> and then sets \<open>n\<close> to the number of residual bytes.
\<close>

function consume_loop ::
  "byte list \<Rightarrow> nat \<Rightarrow> nat \<Rightarrow> ProtocolParser \<Rightarrow> ConsumeResults
     \<Rightarrow> (ConsumeResults \<times> ProtocolParser) option" where
  "consume_loop mem d n p ret =
     (if n = 0 then Some (ret, p)
      else
        (case read_size mem d n (p\<lparr>so_far := (so_far p + n) mod 2 ^ 32\<rparr>) of
           None \<Rightarrow> None
         | Some q \<Rightarrow>
             if fst (is_reading q) \<noteq> 0
                \<and> fst (is_reading q) + 8 \<le> (so_far p + n) mod 2 ^ 32
             then consume_loop mem (d + n)
                    ((so_far p + n) mod 2 ^ 32 - (fst (is_reading q) + 8))
                    (q\<lparr>so_far := 0, size_buff_have := 0, is_reading := (0, 0)\<rparr>)
                    \<lparr>to_write = (to_write ret + snd (is_reading q)) mod 2 ^ 64,
                     count = (count ret + 1) mod 2 ^ 32\<rparr>
             else Some (ret, q)))"
  by pat_completeness auto
termination
proof (relation "measure (\<lambda>(mem, d, n, p, ret). so_far p + n)", goal_cases)
  case 1
  show ?case by simp
next
  case (2 mem d n p ret q)
  have "(so_far p + n) mod 2 ^ 32 \<le> so_far p + n"
    by (rule mod_less_eq_dividend)
  with 2 show ?case by simp
qed

declare consume_loop.simps [simp del]

definition consume :: "ProtocolParser \<Rightarrow> byte list \<Rightarrow> nat \<Rightarrow> (ConsumeResults \<times> ProtocolParser) option" where
  "consume p mem n = consume_loop mem 0 n p no_results"

text \<open>A frame on the wire: length word, reply-size word, payload.\<close>

definition frame_bytes :: "nat \<Rightarrow> nat \<Rightarrow> byte list \<Rightarrow> byte list" where
  "frame_bytes L R pl = le32_bytes L @ le32_bytes R @ pl"

text \<open>
  A caller that hands the parser a sequence of chunks, each in a buffer of exactly the chunk's
  size (one \<open>consume\<close> call per chunk), collecting the results of the calls in order.
\<close>

fun feed :: "ProtocolParser \<Rightarrow> byte list list \<Rightarrow> (ConsumeResults list \<times> ProtocolParser) option" where
  "feed p [] = Some ([], p)"
| "feed p (c # cs) =
     (case consume p c (length c) of
        None \<Rightarrow> None
      | Some (r, q) \<Rightarrow>
          (case feed q cs of None \<Rightarrow> None | Some (rs, q') \<Rightarrow> Some (r # rs, q')))"

text \<open>The parser state between two frames.\<close>

definition at_frame_boundary :: "ProtocolParser \<Rightarrow> bool" where
  "at_frame_boundary p \<longleftrightarrow>
     so_far p = 0 \<and> size_buff_have p = 0 \<and> is_reading p = (0, 0) \<and> length (size_buff p) = 8"

text \<open>The state after \<open>k\<close> bytes of the frame \<open>fr\<close> have been consumed.\<close>

definition in_frame :: "byte list \<Rightarrow> nat \<Rightarrow> ProtocolParser \<Rightarrow> bool" where
  "in_frame fr k p \<longleftrightarrow>
     so_far p = k \<and> length (size_buff p) = 8 \<and>
     (if k < 8 then size_buff_have p = k \<and> is_reading p = (0, 0)
                    \<and> take k (size_buff p) = take k fr
      else size_buff_have p = 8 \<and> is_reading p = load_is_reading fr)"

text \<open>
  The results expected from the calls that deliver one frame in the chunks \<open>cs\<close>: nothing
  until the call with the frame's last byte, which reports one completion and the reply size.
\<close>

definition frame_results :: "nat \<Rightarrow> byte list list \<Rightarrow> ConsumeResults list" where
  "frame_results R cs = replicate (length cs - 1) no_results @ [\<lparr>to_write = R, count = 1\<rparr>]"

definition well_formed_frame :: "nat \<times> nat \<times> byte list \<Rightarrow> bool" where
  "well_formed_frame f \<longleftrightarrow>
     (case f of (L, R, pl) \<Rightarrow> 0 < L \<and> L + 8 < 2 ^ 32 \<and> R < 2 ^ 32 \<and> length pl = L)"

definition chunks_of_frame :: "nat \<times> nat \<times> byte list \<Rightarrow> byte list list \<Rightarrow> bool" where
  "chunks_of_frame f cs \<longleftrightarrow>
     (case f of (L, R, pl) \<Rightarrow> concat cs = frame_bytes L R pl \<and> [] \<notin> set cs)"

text \<open>Feeding a byte string one byte per \<open>consume\<close> call, and the totals over a run of calls.\<close>

definition feed_bytewise :: "ProtocolParser \<Rightarrow> byte list \<Rightarrow> (ConsumeResults list \<times> ProtocolParser) option" where
  "feed_bytewise p bs = feed p (map (\<lambda>b. [b]) bs)"

definition totals :: "ConsumeResults list \<Rightarrow> nat \<times> nat" where
  "totals rs = (sum_list (map to_write rs), sum_list (map count rs))"

section \<open>Ring creation (\<open>mkIoUring\<close>)\<close>

text \<open>
  The configuration fields the modelled functions read. The C++ \<open>int\<close> fields are integers;
  \<open>int_ok\<close> is the range of a 32-bit \<open>int\<close>.
\<close>

record IoUringRxConfig =
  recv_size :: int
  sqe_count :: int
  cqe_count :: int
  provided_buffer_count :: int
  provided_buffer_low_watermark :: int
  defer_taskrun :: bool
  cqe_skip_success_flag :: nat

definition int_ok :: "int \<Rightarrow> bool" where
  "int_ok x \<longleftrightarrow> - (2 ^ 31) \<le> x \<and> x < 2 ^ 31"

datatype setup_flag =
  IORING_SETUP_SUBMIT_ALL | IORING_SETUP_COOP_TASKRUN | IORING_SETUP_CQSIZE
  | IORING_SETUP_DEFER_TASKRUN | IORING_SETUP_SINGLE_ISSUER | IORING_SETUP_R_DISABLED

record io_uring_params =
  flags :: "setup_flag set"
  cq_entries :: nat

text \<open>The ring, as the arguments of the call that created it.\<close>

record io_uring =
  ring_entries :: int
  ring_params :: io_uring_params

definition IOSQE_CQE_SKIP_SUCCESS :: nat where
  "IOSQE_CQE_SKIP_SUCCESS = 64"

datatype mk_error = SignedOverflow | CheckedErrno int

text \<open>
  \<open>io_uring_queue_init_params\<close> is the kernel: a parameter \<open>queue_init entries params\<close> that
  gives the return value of the call and whether \<open>params.features\<close> then has
  \<open>IORING_FEAT_CQE_SKIP\<close>. The product \<open>128 * sqe_count\<close> is an \<open>int\<close> product, undefined
  when it overflows; \<open>params.cq_entries\<close> is unsigned, so the \<open>int\<close> is reduced modulo
  \<open>2 ^ 32\<close>. \<open>checkedErrno\<close> (declared outside this file) ends the program on a negative
  result.
\<close>

definition mkIoUring ::
  "IoUringRxConfig \<Rightarrow> (int \<Rightarrow> io_uring_params \<Rightarrow> int \<times> bool)
     \<Rightarrow> mk_error + (io_uring \<times> IoUringRxConfig)" where
  "mkIoUring rx_cfg queue_init =
     (if cqe_count rx_cfg \<le> 0 \<and> \<not> int_ok (128 * sqe_count rx_cfg) then Inl SignedOverflow
      else
        let cqe_count' = (if cqe_count rx_cfg \<le> 0 then 128 * sqe_count rx_cfg
                          else cqe_count rx_cfg);
            newer_flags = {IORING_SETUP_SUBMIT_ALL, IORING_SETUP_COOP_TASKRUN};
            params = \<lparr>flags = newer_flags \<union> {IORING_SETUP_CQSIZE}
                         \<union> (if defer_taskrun rx_cfg
                            then {IORING_SETUP_DEFER_TASKRUN, IORING_SETUP_SINGLE_ISSUER,
                                  IORING_SETUP_R_DISABLED}
                            else {}),
                      cq_entries = nat (cqe_count' mod 2 ^ 32)\<rparr>;
            (ret, feat) = queue_init (sqe_count rx_cfg) params
        in if ret < 0 then
             (let params2 = params\<lparr>flags := flags params - newer_flags\<rparr>;
                  (ret2, feat2) = queue_init (sqe_count rx_cfg) params2
              in if ret2 < 0 then Inl (CheckedErrno ret2)
                 else Inr (\<lparr>ring_entries = sqe_count rx_cfg, ring_params = params2\<rparr>,
                           if feat2 then rx_cfg\<lparr>cqe_skip_success_flag := IOSQE_CQE_SKIP_SUCCESS\<rparr>
                           else rx_cfg))
           else Inr (\<lparr>ring_entries = sqe_count rx_cfg, ring_params = params\<rparr>,
                     if feat then rx_cfg\<lparr>cqe_skip_success_flag := IOSQE_CQE_SKIP_SUCCESS\<rparr>
                     else rx_cfg))"

text \<open>A kernel that accepts every ring and supports \<open>IORING_FEAT_CQE_SKIP\<close>.\<close>

definition kernel_accepts :: "int \<Rightarrow> io_uring_params \<Rightarrow> int \<times> bool" where
  "kernel_accepts entries params = (0, True)"

text \<open>The defaults of the configuration fields.\<close>

definition default_config :: IoUringRxConfig where
  "default_config =
     \<lparr>recv_size = 4096, sqe_count = 64, cqe_count = 0, provided_buffer_count = 8000,
      provided_buffer_low_watermark = - 1, defer_taskrun = False, cqe_skip_success_flag = 0\<rparr>"

section \<open>The statistics recorder (\<open>RxStats\<close>)\<close>















section \<open>The readiness engine: \<open>EPollRunner::doWrite\<close>\<close>











section \<open>The classic buffer provider (\<open>BufferProviderV1\<close>)\<close>

text \<open>
  \<open>addAlignment\<close> of both providers, on \<open>size_t\<close>.
\<close>

definition addAlignment :: "nat \<Rightarrow> nat" where
  "addAlignment n = 32 * ((n + 32 - 1) mod 2 ^ 64 div 32)"

text \<open>
  A \<open>Range\<close> has the two \<open>uint16_t\<close> members \<open>start\<close> and \<open>count\<close> (here \<open>r_start\<close>,
  \<open>r_count\<close>); an assignment to one of them reduces modulo \<open>2 ^ 16\<close>. The two overloads of
  \<open>merge\<close> return whether they merged and change the range when they did: here they
  return the changed range, or \<open>None\<close> for \<open>false\<close>. Their comparisons are evaluated in
  \<open>int\<close>, without wrap-around. On a little-endian host \<open>count\<close> is the low and \<open>start\<close> the
  high half of \<open>sortable\<close>.
\<close>

record Range =
  r_start :: nat
  r_count :: nat

definition new_Range :: "nat \<Rightarrow> nat \<Rightarrow> Range" where
  "new_Range idx cnt = \<lparr>r_start = idx mod 2 ^ 16, r_count = cnt mod 2 ^ 16\<rparr>"

definition merge_idx :: "Range \<Rightarrow> nat \<Rightarrow> Range option" where
  "merge_idx r idx =
     (if int idx = int (r_start r) - 1
      then Some (r\<lparr>r_start := idx, r_count := (r_count r + 1) mod 2 ^ 16\<rparr>)
      else if idx = r_start r + r_count r
      then Some (r\<lparr>r_count := (r_count r + 1) mod 2 ^ 16\<rparr>)
      else None)"

definition merge_range :: "Range \<Rightarrow> Range \<Rightarrow> Range option" where
  "merge_range r r2 =
     (if r_start r + r_count r = r_start r2
      then Some (r\<lparr>r_count := (r_count r + r_count r2) mod 2 ^ 16\<rparr>)
      else if r_start r2 + r_count r2 = r_start r
      then Some (r\<lparr>r_count := (r_count r + r_count r2) mod 2 ^ 16, r_start := r_start r2\<rparr>)
      else None)"

definition sortable :: "Range \<Rightarrow> nat" where
  "sortable r = r_start r * 2 ^ 16 + r_count r"

text \<open>
  The provider: \<open>buffers_size\<close> is \<open>buffers_.size()\<close>, the other members have their names
  without the trailing underscore.
\<close>

record BufferProviderV1 =
  sizePerBuffer :: nat
  buffers_size :: nat
  toProvideCount :: int
  lowWatermark :: int
  toProvide :: "Range list"
  toProvide2 :: "Range list"

text \<open>
  The constructor. \<open>buffer_.resize(count * sizePerBuffer_)\<close> multiplies in \<open>size_t\<close> and
  throws for a size above the largest a vector can have (\<open>2 ^ 63 - 1\<close>), as a negative count
  with a positive buffer size gives; then there is no provider. \<open>Range(0, count)\<close> converts
  the \<open>int\<close> count to \<open>uint16_t\<close>.
\<close>

definition new_BufferProviderV1 :: "IoUringRxConfig \<Rightarrow> BufferProviderV1 option" where
  "new_BufferProviderV1 rx_cfg =
     (let sz = addAlignment (nat (recv_size rx_cfg mod 2 ^ 64));
          cnt = provided_buffer_count rx_cfg
      in if 2 ^ 63 \<le> nat (cnt mod 2 ^ 64) * sz mod 2 ^ 64 then None
         else Some \<lparr>sizePerBuffer = sz, buffers_size = nat cnt, toProvideCount = cnt,
                     lowWatermark = provided_buffer_low_watermark rx_cfg,
                     toProvide = [new_Range 0 (nat (cnt mod 2 ^ 16))], toProvide2 = []\<rparr>)"

definition canProvide :: "BufferProviderV1 \<Rightarrow> bool" where
  "canProvide st \<longleftrightarrow> toProvide st \<noteq> []"

definition needsToProvide :: "BufferProviderV1 \<Rightarrow> bool" where
  "needsToProvide st \<longleftrightarrow> lowWatermark st < toProvideCount st"

text \<open>\<open>returnIndex\<close>, for an index \<open>i\<close> of type \<open>uint16_t\<close>.\<close>

definition returnIndex :: "nat \<Rightarrow> BufferProviderV1 \<Rightarrow> BufferProviderV1" where
  "returnIndex i st =
     (let tp = toProvide st; n = length tp;
          tp' =
            (if tp = [] then [new_Range i 1]
             else case merge_idx (last tp) i of
               Some r \<Rightarrow> tp[n - 1 := r]
             | None \<Rightarrow>
                 (if 2 \<le> n then
                    (case merge_idx (tp ! (n - 2)) i of
                       Some r \<Rightarrow>
                         (case merge_range r (last tp) of
                            Some r' \<Rightarrow> butlast (tp[n - 2 := r'])
                          | None \<Rightarrow> tp[n - 2 := r])
                     | None \<Rightarrow> tp @ [new_Range i 1])
                  else tp @ [new_Range i 1]))
      in st\<lparr>toProvide := tp', toProvideCount := toProvideCount st + 1\<rparr>)"

text \<open>
  The loop of \<open>compact\<close> over the sorted ranges: \<open>acc\<close> is \<open>toProvide2_\<close>, never empty.
\<close>

fun coalesce :: "Range list \<Rightarrow> Range list \<Rightarrow> Range list" where
  "coalesce acc [] = acc"
| "coalesce acc (p # ps) =
     (case merge_range (last acc) p of
        Some r \<Rightarrow> coalesce (butlast acc @ [r]) ps
      | None \<Rightarrow> coalesce (acc @ [p]) ps)"

text \<open>
  \<open>compact\<close>. \<open>std::sort\<close> orders by \<open>sortable\<close>; ranges with equal keys are equal, so the
  sorted vector is the one \<open>sort_key\<close> gives. After the \<open>swap\<close>, \<open>toProvide2_\<close> holds the
  sorted ranges.
\<close>

definition compact :: "BufferProviderV1 \<Rightarrow> BufferProviderV1" where
  "compact st =
     (let tp = toProvide st in
      if length tp \<le> 1 then st
      else if length tp = 2 then
        (case merge_range (tp ! 0) (tp ! 1) of
           Some r \<Rightarrow> st\<lparr>toProvide := [r]\<rparr>
         | None \<Rightarrow> st)
      else
        (let sorted_tp = sort_key sortable tp
         in st\<lparr>toProvide := coalesce [hd sorted_tp] (tl sorted_tp), toProvide2 := sorted_tp\<rparr>))"

text \<open>
  \<open>provide\<close> fills a submission and removes the last range. \<open>toProvide_.back()\<close> on an empty
  vector and \<open>buffers_[r.start]\<close> outside the vector are undefined, and the \<open>assert\<close> ends the
  program when it fails.
\<close>

record provide_sqe =
  sqe_buffer :: nat
  sqe_len :: nat
  sqe_nr :: nat
  sqe_bgid :: nat
  sqe_bid :: nat
  sqe_skip_success :: bool

datatype provide_error = EmptyFreeList | NoSuchBuffer | AssertionFailed

definition kBgid :: nat where
  "kBgid = 1"

definition provide :: "BufferProviderV1 \<Rightarrow> provide_error + (provide_sqe \<times> BufferProviderV1)" where
  "provide st =
     (if toProvide st = [] then Inl EmptyFreeList
      else
        let r = last (toProvide st) in
        if buffers_size st \<le> r_start r then Inl NoSuchBuffer
        else
          let st' = st\<lparr>toProvideCount := toProvideCount st - int (r_count r),
                       toProvide := butlast (toProvide st)\<rparr>
          in if toProvide st' = [] \<and> toProvideCount st' \<noteq> 0 then Inl AssertionFailed
             else Inr (\<lparr>sqe_buffer = r_start r, sqe_len = sizePerBuffer st, sqe_nr = r_count r,
                         sqe_bgid = kBgid, sqe_bid = r_start r, sqe_skip_success = True\<rparr>,
                       st'))"

text \<open>The counter agrees with the free list.\<close>

definition pending_agrees :: "BufferProviderV1 \<Rightarrow> bool" where
  "pending_agrees st \<longleftrightarrow> toProvideCount st = int (sum_list (map r_count (toProvide st)))"

text \<open>The buffer indices a range stands for, and those of a free list, in order.\<close>

definition cells :: "Range \<Rightarrow> nat list" where
  "cells r = [r_start r ..< r_start r + r_count r]"

definition all_cells :: "Range list \<Rightarrow> nat list" where
  "all_cells rs = concat (map cells rs)"

text \<open>No range of the free list is empty.\<close>

definition nonempty_ranges :: "Range list \<Rightarrow> bool" where
  "nonempty_ranges rs \<longleftrightarrow> (\<forall>r \<in> set rs. 0 < r_count r)"

text \<open>
  A pool of four buffers with low watermark 1, as constructed, and after its one range has
  been handed to the kernel by \<open>provide\<close> (an empty free list).
\<close>

definition pool_4 :: BufferProviderV1 where
  "pool_4 = \<lparr>sizePerBuffer = 4096, buffers_size = 4, toProvideCount = 4, lowWatermark = 1,
             toProvide = [\<lparr>r_start = 0, r_count = 4\<rparr>], toProvide2 = []\<rparr>"

definition pool_4_published :: BufferProviderV1 where
  "pool_4_published = pool_4\<lparr>toProvideCount := 0, toProvide := []\<rparr>"

section \<open>The shared-ring buffer provider (\<open>BufferProviderV2\<close>)\<close>

text \<open>
  The members \<open>count_\<close> and \<open>sizePerBuffer_\<close> are \<open>buf_count\<close> and \<open>buf_size\<close>;
  \<open>buffer_base\<close> is the address behind the ring, from which \<open>buffers_[i]\<close> is
  \<open>buffer_base + i * sizePerBuffer_\<close> for \<open>i < count_\<close>. The kernel-visible ring is
  \<open>ring_bufs\<close> (the entries) and \<open>ring_tail\<close>; \<open>published\<close> records, in order, every value
  written to \<open>ring_->tail\<close> by \<open>io_uring_smp_store_release\<close>. \<open>tailCached_\<close> is a
  \<open>uint16_t\<close>: incrementing it wraps at \<open>2 ^ 16\<close>.
\<close>

record io_uring_buf =
  addr :: nat
  len :: nat
  bid :: nat

record BufferProviderV2 =
  buf_count :: nat
  buf_size :: nat
  buffer_base :: nat
  tailCached :: nat
  ringSize :: nat
  ringMask :: nat
  cachedIndices :: nat
  indices :: "nat list"
  ring_bufs :: "nat \<Rightarrow> io_uring_buf"
  ring_tail :: nat
  published :: "nat list"


text \<open>
  \<open>while (ringSize_ < count_) ringSize_ *= 2\<close>, started at 1. \<open>ringSize_\<close> is a
  \<open>uint32_t\<close>; for the counts the constructor accepts (below 65535) the doubling stays
  below \<open>2 ^ 17\<close> and does not wrap, so the product is written without reduction.
\<close>

function ring_size_loop :: "nat \<Rightarrow> nat \<Rightarrow> nat" where
  "ring_size_loop r c = (if 0 < r \<and> r < c then ring_size_loop (2 * r) c else r)"
  by pat_completeness auto
termination
  by (relation "measure (\<lambda>(r, c). c - r)") auto

declare ring_size_loop.simps [simp del]

text \<open>\<open>populate(b, i)\<close>; \<open>getData(i)\<close> reads \<open>buffers_[i]\<close>, defined for \<open>i < count_\<close> only.\<close>

definition populate :: "BufferProviderV2 \<Rightarrow> nat \<Rightarrow> io_uring_buf option" where
  "populate st i =
     (if i < buf_count st
      then Some \<lparr>addr = buffer_base st + i * buf_size st, len = buf_size st mod 2 ^ 32, bid = i\<rparr>
      else None)"

text \<open>
  The constructor, for the configured count and receive size, the address \<open>mmap\<close> returned
  (\<open>None\<close> for \<open>MAP_FAILED\<close>) and the initial contents of the array \<open>indices\<close>. No provider
  results when \<open>mmap\<close> fails or the count is not below 65535 (\<open>die\<close>).
\<close>

definition new_BufferProviderV2 ::
  "IoUringRxConfig \<Rightarrow> nat option \<Rightarrow> nat list \<Rightarrow> BufferProviderV2 option" where
  "new_BufferProviderV2 rx_cfg mmap_result indices0 =
     (let cnt = nat (provided_buffer_count rx_cfg mod 2 ^ 64);
          sz = addAlignment (nat (recv_size rx_cfg mod 2 ^ 64));
          rs = ring_size_loop 1 cnt;
          ringMemSize = (rs * 16 + 31) div 32 * 32
      in case mmap_result of
           None \<Rightarrow> None
         | Some bufferMmap \<Rightarrow>
             if 65535 \<le> cnt then None
             else Some \<lparr>buf_count = cnt, buf_size = sz, buffer_base = bufferMmap + ringMemSize,
                         tailCached = cnt, ringSize = rs, ringMask = rs - 1,
                         cachedIndices = 0, indices = indices0,
                         ring_bufs = (\<lambda>i. if i < cnt
                            then \<lparr>addr = bufferMmap + ringMemSize + i * sz,
                                  len = sz mod 2 ^ 32, bid = i\<rparr>
                            else \<lparr>addr = 0, len = 0, bid = 0\<rparr>),
                         ring_tail = cnt, published = [cnt]\<rparr>)"

text \<open>One round of the loop \<open>for (uint16_t idx : indices)\<close> in \<open>returnIndex\<close>.\<close>

definition publish_one :: "BufferProviderV2 \<Rightarrow> nat \<Rightarrow> BufferProviderV2 option" where
  "publish_one st idx =
     (case populate st idx of
        None \<Rightarrow> None
      | Some b \<Rightarrow>
          Some (st\<lparr>ring_bufs := (ring_bufs st)(tailCached st mod ringSize st := b),
                   tailCached := (tailCached st + 1) mod 2 ^ 16\<rparr>))"

fun publish_all :: "BufferProviderV2 \<Rightarrow> nat list \<Rightarrow> BufferProviderV2 option" where
  "publish_all st [] = Some st"
| "publish_all st (idx # rest) =
     (case publish_one st idx of None \<Rightarrow> None | Some st' \<Rightarrow> publish_all st' rest)"

text \<open>
  \<open>returnIndex\<close>. The store \<open>indices[cachedIndices++] = i\<close> is defined inside the array
  only. For the power-of-two ring sizes the constructor makes, \<open>tailCached_ & ringMask_\<close> is
  \<open>tailCached_ mod ringSize_\<close>.
\<close>

definition returnIndexV2 :: "nat \<Rightarrow> BufferProviderV2 \<Rightarrow> BufferProviderV2 option" where
  "returnIndexV2 i st =
     (if length (indices st) \<le> cachedIndices st then None
      else
        let st1 = st\<lparr>indices := (indices st)[cachedIndices st := i],
                     cachedIndices := cachedIndices st + 1\<rparr>
        in if cachedIndices st1 < length (indices st1) then Some st1
           else (case publish_all (st1\<lparr>cachedIndices := 0\<rparr>) (indices st1) of
                   None \<Rightarrow> None
                 | Some st2 \<Rightarrow>
                     Some (st2\<lparr>ring_tail := tailCached st2,
                               published := published st2 @ [tailCached st2]\<rparr>)))"

text \<open>A sequence of \<open>returnIndex\<close> calls.\<close>

fun returnIndices :: "BufferProviderV2 \<Rightarrow> nat list \<Rightarrow> BufferProviderV2 option" where
  "returnIndices st [] = Some st"
| "returnIndices st (i # rest) =
     (case returnIndexV2 i st of None \<Rightarrow> None | Some st' \<Rightarrow> returnIndices st' rest)"

text \<open>
  Two properties of the sequence of published tails: never decreasing, and advancing by one
  batch of 32 modulo \<open>2 ^ 16\<close> from each value to the next.
\<close>

fun never_decreases :: "nat list \<Rightarrow> bool" where
  "never_decreases (a # b # rest) = (a \<le> b \<and> never_decreases (b # rest))"
| "never_decreases _ = True"

fun advances_by_batch :: "nat list \<Rightarrow> bool" where
  "advances_by_batch (a # b # rest) = (b = (a + 32) mod 2 ^ 16 \<and> advances_by_batch (b # rest))"
| "advances_by_batch _ = True"

text \<open>A provider for 65534 buffers, the largest count the constructor accepts.\<close>

definition provider_65534 :: BufferProviderV2 where
  "provider_65534 =
     the (new_BufferProviderV2 (default_config\<lparr>provided_buffer_count := 65534\<rparr>) (Some 0)
            [0, 0, 0, 0, 0, 0, 0, 0, 0, 0, 0, 0, 0, 0, 0, 0,
             0, 0, 0, 0, 0, 0, 0, 0, 0, 0, 0, 0, 0, 0, 0, 0])"

text \<open>What holds of every provider reached from the constructor by \<open>returnIndex\<close> calls.\<close>

definition v2_inv :: "BufferProviderV2 \<Rightarrow> bool" where
  "v2_inv st \<longleftrightarrow>
     published st \<noteq> [] \<and> last (published st) = tailCached st \<and> ring_tail st = tailCached st
     \<and> advances_by_batch (published st) \<and> tailCached st < 2 ^ 16
     \<and> cachedIndices st < length (indices st) \<and> length (indices st) = 32"

text \<open>The indices staged so far are indices of buffers of the pool.\<close>

definition staged_ok :: "BufferProviderV2 \<Rightarrow> bool" where
  "staged_ok st \<longleftrightarrow> (\<forall>j < cachedIndices st. indices st ! j < buf_count st)"

section \<open>The ring engine: \<open>IOUringRunner::processRead\<close>\<close>

text \<open>
  A completion, with the socket its \<open>user_data\<close> points to as a number and the flag
  \<open>IORING_CQE_F_MORE\<close> as a boolean.
\<close>

record io_uring_cqe =
  cqe_res :: int
  cqe_more :: bool
  cqe_sock :: nat

record DidReadResult =
  amount :: int
  recycleBufferIdx :: int

text \<open>The values of \<open>errno.h\<close> on Linux.\<close>

definition ENOBUFS :: int where
  "ENOBUFS = 105"

definition ECONNRESET :: int where
  "ECONNRESET = 104"

text \<open>
  What the handler does is the sequence of the calls it makes on the engine, the socket
  and the buffer provider, and how it ends.
\<close>

datatype action =
  ReturnIndex int | ProvideBuffers bool | FinishedRequests nat | AddSend nat nat | DidSend nat
  | CountRead int | AddRead nat | Log string | Report string | AddClose nat | DoClose nat
  | DeleteSock nat | DelSock

datatype ending = Returns | Aborts

text \<open>
  What \<open>processRead\<close> reads besides the completion: the engine's \<open>stopping\<close> flag and
  configuration, the result the socket's \<open>didRead\<close> gives for a positive \<open>res\<close> (it runs
  the parser on the payload), and the socket's \<open>do_send\<close> afterwards (\<open>peekSend\<close>).
\<close>

record read_env =
  stopping :: bool
  fixed_files :: bool
  multishot_recv :: bool
  positive_read :: DidReadResult
  do_send :: ConsumeResults

text \<open>\<open>BasicSock::didRead\<close>: a result \<open>res <= 0\<close> is passed on with no buffer to recycle.\<close>

definition didRead :: "read_env \<Rightarrow> io_uring_cqe \<Rightarrow> DidReadResult" where
  "didRead env cqe =
     (if cqe_res cqe \<le> 0 then \<lparr>amount = cqe_res cqe, recycleBufferIdx = - 1\<rparr>
      else positive_read env)"

text \<open>
  Modelled from the spec: \<open>die\<close> is declared in util.h, which is not among the sources. The
  spec calls the \<open>-ENOBUFS\<close> case fatal: the implementation must report and abort. So
  \<open>die msg\<close> reports the message and the handler ends there, aborting; the statements that
  follow the call (\<open>rest\<close>) are not run.
\<close>

definition die :: "string \<Rightarrow> action list \<Rightarrow> (action list \<Rightarrow> action list \<times> ending) \<Rightarrow> action list \<times> ending" where
  "die msg done rest = (done @ [Report msg], Aborts)"

definition processRead :: "read_env \<Rightarrow> io_uring_cqe \<Rightarrow> action list \<times> ending" where
  "processRead env cqe =
     (let res = didRead env cqe;
          sock = cqe_sock cqe;
          recycled = (if 0 < recycleBufferIdx res
                      then [ReturnIndex (recycleBufferIdx res), ProvideBuffers False] else [])
      in if 0 < amount res then
           (recycled
            @ (if 0 < ConsumeResults.to_write (do_send env)
               then [FinishedRequests (ConsumeResults.count (do_send env)),
                     AddSend sock (ConsumeResults.to_write (do_send env) mod 2 ^ 32),
                     DidSend sock]
               else [])
            @ [CountRead (amount res)]
            @ (if \<not> multishot_recv env \<or> \<not> cqe_more cqe then [AddRead sock] else []),
            Returns)
         else if cqe_res cqe = - ENOBUFS then
           die ''not enough buffers, but will just requeue'' recycled
             (\<lambda>done. (done @ [AddRead sock], Returns))
         else
           (recycled
            @ (if cqe_res cqe < 0 \<and> \<not> stopping env \<and> cqe_res cqe \<noteq> - ECONNRESET
               then [Log ''unexpected read''] else [])
            @ (if fixed_files env then [AddClose sock]
               else [DoClose sock, DeleteSock sock, DelSock]),
            Returns))"

text \<open>An engine in its default configuration, and a read completion that found no buffer.\<close>

definition env_running :: read_env where
  "env_running = \<lparr>stopping = False, fixed_files = True, multishot_recv = True,
                    positive_read = \<lparr>amount = 72, recycleBufferIdx = 3\<rparr>,
                    do_send = \<lparr>to_write = 1, count = 1\<rparr>\<rparr>"

definition cqe_enobufs :: io_uring_cqe where
  "cqe_enobufs = \<lparr>cqe_res = - 105, cqe_more = False, cqe_sock = 4\<rparr>"

section \<open>Properties of the parser\<close>

lemma le_val_le32_bytes:
  assumes "x < 2 ^ 32"
  shows "le_val (le32_bytes x) = x"
proof -
  define a where "a = x div 256"
  define b where "b = a div 256"
  define c where "c = b div 256"
  have b: "x div 65536 = b" by (simp add: a_def b_def div_mult2_eq)
  have c: "x div 16777216 = c" by (simp add: a_def b_def c_def div_mult2_eq)
  from assms have "c < 256" unfolding c [symmetric] by simp
  then have cm: "c mod 256 = c" by simp
  have x: "x = x mod 256 + 256 * a" by (simp add: a_def)
  have a: "a = a mod 256 + 256 * b" by (simp add: b_def)
  have b': "b = b mod 256 + 256 * c" by (simp add: c_def)
  have "le_val (le32_bytes x) = x mod 256 + 256 * (a mod 256 + 256 * (b mod 256 + 256 * (c mod 256)))"
    by (simp add: le32_bytes_def unat_of_nat b c a_def [symmetric])
  also have "\<dots> = x mod 256 + 256 * (a mod 256 + 256 * b)" using b' cm by simp
  also have "\<dots> = x" using a x by simp
  finally show ?thesis .
qed

lemma length_le32_bytes: "length (le32_bytes x) = 4"
  by (simp add: le32_bytes_def)

lemma load_is_reading_header:
  "L < 2 ^ 32 \<Longrightarrow> R < 2 ^ 32 \<Longrightarrow> load_is_reading (le32_bytes L @ le32_bytes R @ rest) = (L, R)"
  by (simp add: load_is_reading_def length_le32_bytes le_val_le32_bytes)

lemma length_frame_bytes: "length (frame_bytes L R pl) = 8 + length pl"
  by (simp add: frame_bytes_def length_le32_bytes)

lemma read_size_done: "fst (is_reading p) \<noteq> 0 \<Longrightarrow> read_size mem d n p = Some p"
  by (simp add: read_size_def)

lemma read_size_fast:
  "fst (is_reading p) = 0 \<Longrightarrow> 8 \<le> n \<Longrightarrow> size_buff_have p = 0 \<Longrightarrow> d + 8 \<le> length mem \<Longrightarrow>
   read_size mem d n p = Some (p\<lparr>size_buff_have := 8, is_reading := load_is_reading (take 8 (drop d mem))\<rparr>)"
  by (simp add: read_size_def mem_read_def)

lemma read_size_slow:
  assumes "fst (is_reading p) = 0" "\<not> (8 \<le> n \<and> size_buff_have p = 0)"
    and "size_buff_have p \<le> 8" "n < 2 ^ 32" "length (size_buff p) = 8"
    and "a = min n (8 - size_buff_have p)" "d + a \<le> length mem"
  shows "read_size mem d n p =
     Some (p\<lparr>size_buff_have := size_buff_have p + a,
            size_buff := take (size_buff_have p) (size_buff p) @ take a (drop d mem)
                           @ drop (size_buff_have p + a) (size_buff p),
            is_reading := (if 8 \<le> size_buff_have p + a
               then load_is_reading (take (size_buff_have p) (size_buff p) @ take a (drop d mem)
                           @ drop (size_buff_have p + a) (size_buff p))
               else is_reading p)\<rparr>)"
proof -
  have 1: "nat ((8 - int (size_buff_have p)) mod 2 ^ 32) = 8 - size_buff_have p"
    using assms(3) by (simp add: nat_diff_distrib')
  have 2: "n mod 2 ^ 32 = n" using assms(4) by simp
  have 3: "(size_buff_have p + a) mod 2 ^ 32 = size_buff_have p + a"
    using assms(3,6) by simp
  have 4: "min n (8 - size_buff_have p) = a" using assms(6) by simp
  have 5: "length (take a (drop d mem)) = a" using assms(7) by simp
  have 6: "size_buff_have p + a \<le> 8" using assms(3,6) by simp
  have c: "(8 \<le> n \<and> size_buff_have p = 0) = False" using assms(2) by simp
  have z: "(fst (is_reading p) \<noteq> 0) = False" using assms(1) by simp
  have 7: "(d + a \<le> length mem) = True" using assms(7) by simp
  have 8: "(size_buff_have p + a \<le> length (size_buff p)) = True" using 6 assms(5) by simp
  show ?thesis
    unfolding read_size_def Let_def 1 2 4 mem_read_def size_buff_store_def
    by (simp only: c z 7 8 5 3 if_True if_False option.case)
qed


lemma in_frame_0: "in_frame fr 0 p = at_frame_boundary p"
  by (auto simp: in_frame_def at_frame_boundary_def)

lemma load_is_reading_take8: "load_is_reading (take 8 bs) = load_is_reading bs"
  by (simp add: load_is_reading_def take_drop)

lemma read_size_in_frame:
  assumes st: "in_frame fr k p" and L: "fst (load_is_reading fr) \<noteq> 0"
    and c: "c \<noteq> []" "c = take (length c) (drop k fr)" "k + length c \<le> length fr"
    and n: "length c < 2 ^ 32"
  shows "\<exists>q. read_size c 0 (length c) (p\<lparr>so_far := k + length c\<rparr>) = Some q
             \<and> in_frame fr (k + length c) q"
proof -
  let ?n = "length c"
  let ?p = "p\<lparr>so_far := k + ?n\<rparr>"
  have len: "length (size_buff p) = 8" using st by (simp add: in_frame_def)
  show ?thesis
  proof (cases "k < 8")
    case False
    with st have "is_reading p = load_is_reading fr" "size_buff_have p = 8"
      by (simp_all add: in_frame_def)
    with L have "read_size c 0 ?n ?p = Some ?p"
      by (simp add: read_size_done)
    moreover have "in_frame fr (k + ?n) ?p"
      using st False by (simp add: in_frame_def)
    ultimately show ?thesis by blast
  next
    case k: True
    with st have h: "size_buff_have p = k" "is_reading p = (0, 0)"
      "take k (size_buff p) = take k fr"
      by (simp_all add: in_frame_def)
    show ?thesis
    proof (cases "8 \<le> ?n \<and> k = 0")
      case True
      then have c8: "take 8 c = take 8 fr"
        using c(2) by (metis drop0 min.absorb1 take_take)
      have "read_size c 0 ?n ?p
            = Some (?p\<lparr>size_buff_have := 8, is_reading := load_is_reading (take 8 (drop 0 c))\<rparr>)"
        using True h by (intro read_size_fast) simp_all
      moreover have "in_frame fr (k + ?n)
           (?p\<lparr>size_buff_have := 8, is_reading := load_is_reading (take 8 (drop 0 c))\<rparr>)"
        using True len by (simp add: in_frame_def c8 load_is_reading_take8)
      ultimately show ?thesis by blast
    next
      case False
      define a where "a = min ?n (8 - k)"
      define sb where "sb = take k (size_buff p) @ take a (drop 0 c) @ drop (k + a) (size_buff p)"
      have rs: "read_size c 0 ?n ?p
         = Some (?p\<lparr>size_buff_have := size_buff_have ?p + a,
              size_buff := take (size_buff_have ?p) (size_buff ?p) @ take a (drop 0 c)
                           @ drop (size_buff_have ?p + a) (size_buff ?p),
              is_reading := (if 8 \<le> size_buff_have ?p + a
                 then load_is_reading (take (size_buff_have ?p) (size_buff ?p) @ take a (drop 0 c)
                           @ drop (size_buff_have ?p + a) (size_buff ?p))
                 else is_reading ?p)\<rparr>)"
        using False h k len n by (intro read_size_slow) (simp_all add: a_def)
      have tk: "take a c = take a (drop k fr)"
        using c(2) by (metis a_def min.cobounded1 min.absorb1 take_take)
      have lsb: "length sb = 8"
        using len k c(3) by (simp add: sb_def a_def) 
      have pre: "take (k + a) sb = take (k + a) fr"
      proof -
        have "k + a \<le> length fr" using c(3) by (simp add: a_def)
        then have la: "length (take a (drop k fr)) = a" by simp
        have "take (k + a) sb = take k (size_buff p) @ take a (drop k fr)"
          using len k la by (simp add: sb_def tk)
        also have "\<dots> = take k fr @ take a (drop k fr)" by (simp add: h)
        also have "\<dots> = take (k + a) fr" by (simp add: take_add)
        finally show ?thesis .
      qed
      have rs': "read_size c 0 ?n ?p
         = Some (?p\<lparr>size_buff_have := k + a, size_buff := sb,
              is_reading := (if 8 \<le> k + a then load_is_reading sb else (0, 0))\<rparr>)"
        unfolding rs sb_def by (simp add: h)
      have "in_frame fr (k + ?n) (?p\<lparr>size_buff_have := k + a, size_buff := sb,
              is_reading := (if 8 \<le> k + a then load_is_reading sb else (0, 0))\<rparr>)"
      proof (cases "k + ?n < 8")
        case True
        then have "a = ?n" by (simp add: a_def)
        with True pre lsb h show ?thesis by (simp add: in_frame_def)
      next
        case False
        then have a: "k + a = 8" using k by (simp add: a_def)
        with pre lsb have "take 8 fr = sb" by simp
        then have "load_is_reading sb = load_is_reading fr"
          by (metis load_is_reading_take8)
        with False a lsb h show ?thesis by (simp add: in_frame_def)
      qed
      with rs' show ?thesis by blast
    qed
  qed
qed


lemma consume_loop_0: "consume_loop mem d 0 p ret = Some (ret, p)"
  by (simp add: consume_loop.simps)

lemma consume_chunk:
  assumes st: "in_frame fr k p" and hd: "load_is_reading fr = (L, R)" and L: "0 < L"
    and len: "length fr = L + 8" and small: "L + 8 < 2 ^ 32" and R: "R < 2 ^ 64"
    and c: "c \<noteq> []" "c = take (length c) (drop k fr)" "k + length c \<le> length fr"
  shows "\<exists>q. consume p c (length c)
               = Some (if k + length c = L + 8 then \<lparr>to_write = R, count = 1\<rparr> else no_results, q)
             \<and> (if k + length c = L + 8 then at_frame_boundary q
                 else in_frame fr (k + length c) q)"
proof -
  let ?n = "length c"
  have sf: "so_far p = k" using st by (simp add: in_frame_def)
  have kn: "k + ?n < 2 ^ 32" using c(3) len small by simp
  then have m: "(so_far p + ?n) mod 2 ^ 32 = k + ?n" by (simp add: sf)
  have n32: "?n < 2 ^ 32" using kn by simp
  have "fst (load_is_reading fr) \<noteq> 0" using hd L by simp
  from read_size_in_frame [OF st this c n32]
  obtain q where q: "read_size c 0 ?n (p\<lparr>so_far := k + ?n\<rparr>) = Some q"
    and inq: "in_frame fr (k + ?n) q" by blast
  have n0: "?n \<noteq> 0" using c(1) by simp
  show ?thesis
  proof (cases "k + ?n = L + 8")
    case True
    with inq hd have ir: "is_reading q = (L, R)" and lq: "length (size_buff q) = 8"
      by (simp_all add: in_frame_def)
    let ?q = "q\<lparr>so_far := 0, size_buff_have := 0, is_reading := (0, 0)\<rparr>"
    have "consume p c ?n = Some (\<lparr>to_write = R, count = 1\<rparr>, ?q)"
      unfolding consume_def
      apply (subst consume_loop.simps)
      apply (simp only: m q option.case n0 if_False)
      using True L R by (simp add: ir consume_loop_0 no_results_def)
    moreover have "at_frame_boundary ?q" using lq by (simp add: at_frame_boundary_def)
    ultimately show ?thesis using True by auto
  next
    case False
    then have lt: "k + ?n < L + 8" using c(3) len by simp
    have nc: "\<not> (fst (is_reading q) \<noteq> 0 \<and> fst (is_reading q) + 8 \<le> k + ?n)"
    proof (cases "k + ?n < 8")
      case True
      with inq show ?thesis by (simp add: in_frame_def)
    next
      case False
      with inq hd have "is_reading q = (L, R)" by (simp add: in_frame_def)
      with lt show ?thesis by simp
    qed
    have "consume p c ?n = Some (no_results, q)"
      unfolding consume_def
      apply (subst consume_loop.simps)
      apply (simp only: m q option.case n0 if_False)
      using nc by auto
    with inq False show ?thesis by auto
  qed
qed


lemma feed_append:
  "feed p (xs @ ys) =
     (case feed p xs of
        None \<Rightarrow> None
      | Some (rs, q) \<Rightarrow>
          (case feed q ys of None \<Rightarrow> None | Some (rs', q') \<Rightarrow> Some (rs @ rs', q')))"
  by (induction xs arbitrary: p) (auto split: option.splits)

lemma feed_frame_from:
  assumes hd: "load_is_reading fr = (L, R)" and L: "0 < L"
    and len: "length fr = L + 8" and small: "L + 8 < 2 ^ 32" and R: "R < 2 ^ 64"
  shows "in_frame fr k p \<Longrightarrow> cs \<noteq> [] \<Longrightarrow> [] \<notin> set cs \<Longrightarrow> concat cs = drop k fr \<Longrightarrow>
     \<exists>q. feed p cs = Some (frame_results R cs, q) \<and> at_frame_boundary q"
proof (induction cs arbitrary: k p)
  case Nil
  then show ?case by simp
next
  case (Cons c cs)
  from Cons.prems have c0: "c \<noteq> []" and cat: "c @ concat cs = drop k fr" by auto
  from cat have ctk: "c = take (length c) (drop k fr)"
    by (metis append_eq_conv_conj)
  from cat have rest: "concat cs = drop (k + length c) fr"
    by (metis append_eq_conv_conj drop_drop add.commute)
  have "length (c @ concat cs) = length fr - k" by (simp add: cat)
  then have le: "k + length c \<le> length fr" using c0 by (cases c) auto
  from consume_chunk [OF Cons.prems(1) hd L len small R c0 ctk le]
  obtain q where q: "consume p c (length c)
               = Some (if k + length c = L + 8 then \<lparr>to_write = R, count = 1\<rparr> else no_results, q)"
    and q': "if k + length c = L + 8 then at_frame_boundary q else in_frame fr (k + length c) q"
    by blast
  show ?case
  proof (cases "cs = []")
    case True
    with rest have "k + length c = L + 8" using le len by simp
    with q q' True show ?thesis by (simp add: frame_results_def)
  next
    case False
    then obtain d ds where cs: "cs = d # ds" by (cases cs) auto
    with Cons.prems(3) have "d \<noteq> []" by auto
    with cs have "concat cs \<noteq> []" by simp
    with rest have ne: "k + length c \<noteq> L + 8" using len by auto
    with q' have "in_frame fr (k + length c) q" by simp
    from Cons.IH [OF this False _ rest] Cons.prems(3)
    obtain q2 where "feed q cs = Some (frame_results R cs, q2)" "at_frame_boundary q2"
      by auto
    with q ne cs show ?thesis by (simp add: frame_results_def)
  qed
qed

lemma load_is_reading_frame_bytes:
  "L < 2 ^ 32 \<Longrightarrow> R < 2 ^ 32 \<Longrightarrow> load_is_reading (frame_bytes L R pl) = (L, R)"
  by (simp add: frame_bytes_def load_is_reading_header)

lemma feed_frame:
  assumes "at_frame_boundary p" "well_formed_frame (L, R, pl)" "chunks_of_frame (L, R, pl) cs"
  shows "\<exists>q. feed p cs = Some (frame_results R cs, q) \<and> at_frame_boundary q"
proof -
  let ?fr = "frame_bytes L R pl"
  from assms(2) have wf: "0 < L" "L + 8 < 2 ^ 32" "R < 2 ^ 32" "length pl = L"
    by (simp_all add: well_formed_frame_def)
  from assms(3) have ch: "concat cs = ?fr" "[] \<notin> set cs"
    by (simp_all add: chunks_of_frame_def)
  have hd: "load_is_reading ?fr = (L, R)"
    using wf by (intro load_is_reading_frame_bytes) simp_all
  have len: "length ?fr = L + 8" using wf by (simp add: length_frame_bytes)
  have R: "R < 2 ^ 64" using wf(3) by simp
  have ne: "cs \<noteq> []" using ch(1) len by auto
  have st: "in_frame ?fr 0 p" using assms(1) by (simp add: in_frame_0)
  show ?thesis
    using feed_frame_from [OF hd wf(1) len wf(2) R st ne ch(2)] ch(1) by simp
qed

lemmas parser_eval =
  consume_def consume_loop.simps frame_bytes_def fresh_parser_def no_results_def read_size_def
  mem_read_def load_is_reading_def le32_bytes_def size_buff_store_def

text \<open>
  What the parser does at a frame boundary with a frame fed whole in one call: for a
  nonzero length \<open>L\<close> (with \<open>L + 8 < 2 ^ 32\<close>) it reports one completion and \<open>to_write = R\<close>
  and is at a frame boundary again; for the length 0 it reports nothing and keeps
  \<open>size_buff_have = 8\<close>, \<open>so_far = 8\<close> and \<open>is_reading = (0, R)\<close>.
\<close>

lemma consume_header_at_boundary:
  assumes "at_frame_boundary p" and "R < 2 ^ 32"
  shows "consume p (frame_bytes 0 R []) 8
           = Some (no_results, p\<lparr>size_buff_have := 8, is_reading := (0, R), so_far := 8\<rparr>)
         \<and> (\<forall>L pl. 0 < L \<and> L + 8 < 2 ^ 32 \<and> length pl = L \<longrightarrow>
               (\<exists>q. consume p (frame_bytes L R pl) (L + 8)
                      = Some (\<lparr>to_write = R, count = 1\<rparr>, q) \<and> at_frame_boundary q))"
proof (intro conjI allI impI)
  from assms(1) have b: "so_far p = 0" "size_buff_have p = 0" "is_reading p = (0, 0)"
    by (simp_all add: at_frame_boundary_def)
  let ?p = "p\<lparr>so_far := 8\<rparr>"
  have ld: "load_is_reading (take 8 (drop 0 (frame_bytes 0 R []))) = (0, R)"
    using assms(2) by (simp add: load_is_reading_take8 load_is_reading_frame_bytes)
  have rs: "read_size (frame_bytes 0 R []) 0 8 ?p
        = Some (?p\<lparr>size_buff_have := 8,
                    is_reading := load_is_reading (take 8 (drop 0 (frame_bytes 0 R [])))\<rparr>)"
    using b by (intro read_size_fast) (simp_all add: length_frame_bytes)
  have m: "(so_far p + 8) mod 2 ^ 32 = 8" by (simp add: b)
  show "consume p (frame_bytes 0 R []) 8
           = Some (no_results, p\<lparr>size_buff_have := 8, is_reading := (0, R), so_far := 8\<rparr>)"
    unfolding consume_def
    apply (subst consume_loop.simps)
    apply (simp only: m rs ld option.case)
    apply simp
    done
next
  fix L :: nat and pl :: "byte list"
  assume "0 < L \<and> L + 8 < 2 ^ 32 \<and> length pl = L"
  with assms(2) have wf: "well_formed_frame (L, R, pl)"
    by (simp add: well_formed_frame_def)
  have ch: "chunks_of_frame (L, R, pl) [frame_bytes L R pl]"
    by (simp add: chunks_of_frame_def frame_bytes_def le32_bytes_def)
  from feed_frame [OF assms(1) wf ch]
  obtain q where "feed p [frame_bytes L R pl] = Some (frame_results R [frame_bytes L R pl], q)"
    and "at_frame_boundary q" by blast
  moreover have "length (frame_bytes L R pl) = L + 8"
    using wf by (simp add: length_frame_bytes well_formed_frame_def)
  ultimately show "\<exists>q. consume p (frame_bytes L R pl) (L + 8)
                      = Some (\<lparr>to_write = R, count = 1\<rparr>, q) \<and> at_frame_boundary q"
    by (auto simp: frame_results_def split: option.splits)
qed

lemma consume_header_at_boundary_example:
  "consume (fresh_parser [1, 2, 3, 4, 5, 6, 7, 8]) (frame_bytes 0 1 []) 8
     = Some (no_results,
             \<lparr>size_buff_have = 8, is_reading = (0, 1), size_buff = [1, 2, 3, 4, 5, 6, 7, 8],
              so_far = 8\<rparr>)
   \<and> (\<exists>q. consume (fresh_parser [1, 2, 3, 4, 5, 6, 7, 8]) (frame_bytes 4 1 [112, 105, 110, 103]) 12
            = Some (\<lparr>to_write = 1, count = 1\<rparr>, q) \<and> at_frame_boundary q)"
proof -
  have b: "at_frame_boundary (fresh_parser [1, 2, 3, 4, 5, 6, 7, 8])"
    by (simp add: at_frame_boundary_def fresh_parser_def)
  have r: "(1::nat) < 2 ^ 32" by simp
  from consume_header_at_boundary [OF b r]
  have 1: "consume (fresh_parser [1, 2, 3, 4, 5, 6, 7, 8]) (frame_bytes 0 1 []) 8
     = Some (no_results,
          (fresh_parser [1, 2, 3, 4, 5, 6, 7, 8])\<lparr>size_buff_have := 8, is_reading := (0, 1), so_far := 8\<rparr>)"
    and 2: "\<And>L pl. 0 < L \<and> L + 8 < 2 ^ 32 \<and> length pl = L \<Longrightarrow>
               (\<exists>q. consume (fresh_parser [1, 2, 3, 4, 5, 6, 7, 8]) (frame_bytes L 1 pl) (L + 8)
                      = Some (\<lparr>to_write = 1, count = 1\<rparr>, q) \<and> at_frame_boundary q)"
    by blast+
  from 2 [of 4 "[112, 105, 110, 103]"] 1 show ?thesis
    by (simp add: fresh_parser_def)
qed

text \<open>
  Frames of nonzero length, delivered in non-empty chunks none of which crosses a frame
  end: every call returns, the calls that do not deliver a frame's last byte report
  nothing, and the call that delivers the last byte of frame \<open>i\<close> reports one completion
  with \<open>to_write = R\<^sub>i\<close>.
\<close>

lemma feed_frames_chunked:
  "at_frame_boundary p \<Longrightarrow> list_all well_formed_frame fs \<Longrightarrow> list_all2 chunks_of_frame fs css \<Longrightarrow>
   \<exists>q. feed p (concat css) = Some (concat (map2 (\<lambda>f cs. frame_results (fst (snd f)) cs) fs css), q)
       \<and> at_frame_boundary q"
proof (induction fs arbitrary: p css)
  case Nil
  then show ?case by simp
next
  case (Cons f fs)
  from Cons.prems(3) obtain cs css' where css: "css = cs # css'"
    and cf: "chunks_of_frame f cs" and rest: "list_all2 chunks_of_frame fs css'"
    by (auto simp: list_all2_Cons1)
  obtain L R pl where f: "f = (L, R, pl)" by (cases f) auto
  from Cons.prems(2) have wf: "well_formed_frame (L, R, pl)" and wfs: "list_all well_formed_frame fs"
    by (simp_all add: f)
  from feed_frame [OF Cons.prems(1) wf] cf f
  obtain q where q: "feed p cs = Some (frame_results R cs, q)" and bq: "at_frame_boundary q"
    by auto
  from Cons.IH [OF bq wfs rest]
  obtain q' where "feed q (concat css')
      = Some (concat (map2 (\<lambda>f cs. frame_results (fst (snd f)) cs) fs css'), q')"
    and "at_frame_boundary q'" by blast
  with q show ?case by (simp add: css f feed_append)
qed

lemma feed_frames_chunked_example:
  "\<exists>q. feed (fresh_parser [0, 0, 0, 0, 0, 0, 0, 0])
          [[1, 0, 0], [0, 5, 0, 0, 0, 7], [2, 0, 0, 0, 6, 0, 0, 0, 8, 9]]
        = Some ([no_results, \<lparr>to_write = 5, count = 1\<rparr>, \<lparr>to_write = 6, count = 1\<rparr>], q)
      \<and> at_frame_boundary q"
proof -
  have b: "at_frame_boundary (fresh_parser [0, 0, 0, 0, 0, 0, 0, 0])"
    by (simp add: at_frame_boundary_def fresh_parser_def)
  have w: "list_all well_formed_frame [(1, 5, [7]), (2, 6, [8, 9])]"
    by (simp add: well_formed_frame_def)
  have c: "list_all2 chunks_of_frame [(1, 5, [7]), (2, 6, [8, 9])]
             [[[1, 0, 0], [0, 5, 0, 0, 0, 7]], [[2, 0, 0, 0, 6, 0, 0, 0, 8, 9]]]"
    by (simp add: chunks_of_frame_def frame_bytes_def le32_bytes_def)
  from feed_frames_chunked [OF b w c] show ?thesis
    by (simp add: frame_results_def)
qed

text \<open>
  Claim C1 at a concrete input: a fresh parser (its \<open>size_buff\<close> holding the bytes 1 to 8)
  is fed the eight bytes of a header with length 0 and reply size 1. The call reports no
  completion, and the parser is not back at a frame boundary: \<open>size_buff_have\<close> is 8 and
  \<open>is_reading[0]\<close> is 0. The frame \<open>(length 4, reply 1, payload ping)\<close> fed next is not
  parsed as a frame: the call copies no byte, loads the header from \<open>size_buff\<close>, which
  the first call never filled, and reports nothing.
\<close>

theorem zero_length_header_not_completed:
  "consume (fresh_parser [1, 2, 3, 4, 5, 6, 7, 8]) (frame_bytes 0 1 []) 8
     = Some (\<lparr>to_write = 0, count = 0\<rparr>,
             \<lparr>size_buff_have = 8, is_reading = (0, 1), size_buff = [1, 2, 3, 4, 5, 6, 7, 8],
              so_far = 8\<rparr>)
   \<and> \<not> at_frame_boundary
         \<lparr>size_buff_have = 8, is_reading = (0, 1), size_buff = [1, 2, 3, 4, 5, 6, 7, 8],
          so_far = 8\<rparr>
   \<and> consume \<lparr>size_buff_have = 8, is_reading = (0, 1), size_buff = [1, 2, 3, 4, 5, 6, 7, 8],
               so_far = 8\<rparr>
         (frame_bytes 4 1 [112, 105, 110, 103]) 12
     = Some (\<lparr>to_write = 0, count = 0\<rparr>,
             \<lparr>size_buff_have = 8, is_reading = (67305985, 134678021),
              size_buff = [1, 2, 3, 4, 5, 6, 7, 8], so_far = 20\<rparr>)"
  by (simp add: parser_eval at_frame_boundary_def)

text \<open>
  Claim C2 at concrete inputs. The two frames \<open>(length 0, reply 1)\<close> and
  \<open>(length 3, reply 2, payload abc)\<close> in one buffer, both wholly inside the one call, give
  no completion at all. The two frames \<open>(length 4, reply 1, payload ping)\<close> and
  \<open>(length 3, reply 2, payload abc)\<close> in one buffer of exactly their 23 bytes: the call
  completes the first frame and then reads the second header at \<open>data + 23\<close>, outside the
  buffer; with eight zero bytes behind the data it returns one completion and 1 byte owed,
  where two completions and 3 bytes are due.
\<close>

theorem two_frames_one_buffer_not_emitted:
  "consume (fresh_parser [0, 0, 0, 0, 0, 0, 0, 0])
       (frame_bytes 0 1 [] @ frame_bytes 3 2 [97, 98, 99]) 19
     = Some (\<lparr>to_write = 0, count = 0\<rparr>,
             \<lparr>size_buff_have = 8, is_reading = (0, 1), size_buff = [0, 0, 0, 0, 0, 0, 0, 0],
              so_far = 19\<rparr>)
   \<and> consume (fresh_parser [0, 0, 0, 0, 0, 0, 0, 0])
       (frame_bytes 4 1 [112, 105, 110, 103] @ frame_bytes 3 2 [97, 98, 99]) 23 = None
   \<and> consume (fresh_parser [0, 0, 0, 0, 0, 0, 0, 0])
       (frame_bytes 4 1 [112, 105, 110, 103] @ frame_bytes 3 2 [97, 98, 99]
          @ [0, 0, 0, 0, 0, 0, 0, 0]) 23
     = Some (\<lparr>to_write = 1, count = 1\<rparr>,
             \<lparr>size_buff_have = 8, is_reading = (0, 0), size_buff = [0, 0, 0, 0, 0, 0, 0, 0],
              so_far = 11\<rparr>)"
  by (simp add: parser_eval)

text \<open>
  Claim C3 at a concrete input: two frames \<open>(length 1, reply 1)\<close> and \<open>(length 1, reply 2)\<close>,
  18 bytes. Fed one byte per call, the totals are 3 bytes owed and 2 completions. Fed whole
  in one call from a buffer of exactly 18 bytes, the parser completes the first frame and
  then reads the next header at \<open>data + 18\<close>, outside the buffer; when the buffer has eight
  further (zero) bytes behind the data, the call reports only 1 byte owed and 1 completion.
\<close>

theorem whole_buffer_differs_from_bytewise:
  "map_option (totals \<circ> fst)
      (feed_bytewise (fresh_parser [0, 0, 0, 0, 0, 0, 0, 0])
         (frame_bytes 1 1 [7] @ frame_bytes 1 2 [9])) = Some (3, 2)
   \<and> consume (fresh_parser [0, 0, 0, 0, 0, 0, 0, 0])
         (frame_bytes 1 1 [7] @ frame_bytes 1 2 [9]) 18 = None
   \<and> map_option fst
        (consume (fresh_parser [0, 0, 0, 0, 0, 0, 0, 0])
           (frame_bytes 1 1 [7] @ frame_bytes 1 2 [9] @ [0, 0, 0, 0, 0, 0, 0, 0]) 18)
       = Some \<lparr>to_write = 1, count = 1\<rparr>"
  by (simp add: parser_eval feed_bytewise_def totals_def)

section \<open>Properties of ring creation\<close>

text \<open>
  Claim C8, as stated, fails: with \<open>sqe_count = 64\<close> and an explicit \<open>cqe_count = 100\<close> the
  ring is created with 100 completion slots, fewer than \<open>128 * 64\<close>.
\<close>

theorem explicit_cqe_count_below_128_sqe:
  "mkIoUring (default_config\<lparr>cqe_count := 100\<rparr>) kernel_accepts
     = Inr (\<lparr>ring_entries = 64,
             ring_params = \<lparr>flags = {IORING_SETUP_SUBMIT_ALL, IORING_SETUP_COOP_TASKRUN,
                                      IORING_SETUP_CQSIZE},
                            cq_entries = 100\<rparr>\<rparr>,
            default_config\<lparr>cqe_count := 100, cqe_skip_success_flag := IOSQE_CQE_SKIP_SUCCESS\<rparr>)
   \<and> \<not> 128 * sqe_count (default_config\<lparr>cqe_count := 100\<rparr>) \<le> 100"
  by (auto simp: mkIoUring_def default_config_def kernel_accepts_def int_ok_def)

text \<open>
  Claim C8, amended: whenever \<open>mkIoUring\<close> creates a ring, the completion-queue size it
  requested is the explicitly configured \<open>cqe_count\<close> when that is positive, and
  \<open>128 * sqe_count\<close> otherwise (as an unsigned 32-bit value); it is not the maximum of the two.
\<close>

theorem mkIoUring_cq_entries:
  "mkIoUring rx_cfg queue_init = Inr (ring, ret_cfg) \<Longrightarrow>
   cq_entries (ring_params ring)
     = nat ((if cqe_count rx_cfg \<le> 0 then 128 * sqe_count rx_cfg else cqe_count rx_cfg)
             mod 2 ^ 32)"
  by (auto simp: mkIoUring_def Let_def split: if_splits prod.splits)

theorem mkIoUring_cq_entries_witness:
  "mkIoUring default_config kernel_accepts
     = Inr (\<lparr>ring_entries = 64,
             ring_params = \<lparr>flags = {IORING_SETUP_SUBMIT_ALL, IORING_SETUP_COOP_TASKRUN,
                                      IORING_SETUP_CQSIZE},
                            cq_entries = 8192\<rparr>\<rparr>,
            default_config\<lparr>cqe_skip_success_flag := IOSQE_CQE_SKIP_SUCCESS\<rparr>)"
proof -
  obtain ring ret_cfg where e: "mkIoUring default_config kernel_accepts = Inr (ring, ret_cfg)"
    by (simp add: mkIoUring_def default_config_def kernel_accepts_def int_ok_def)
  from mkIoUring_cq_entries [OF e] have "cq_entries (ring_params ring) = 8192"
    by (simp add: default_config_def)
  with e show ?thesis
    by (auto simp: mkIoUring_def default_config_def kernel_accepts_def int_ok_def)
qed

section \<open>Properties of the statistics recorder\<close>









section \<open>Properties of \<open>doWrite\<close>\<close>




section \<open>Properties of the shared-ring buffer provider\<close>

lemma advances_by_batch_snoc:
  "advances_by_batch (xs @ [b]) = (advances_by_batch xs \<and> (xs \<noteq> [] \<longrightarrow> b = (last xs + 32) mod 2 ^ 16))"
  by (induction xs rule: advances_by_batch.induct) auto

lemma publish_one_fields:
  "publish_one st idx = Some st' \<Longrightarrow>
   tailCached st' = (tailCached st + 1) mod 2 ^ 16 \<and> published st' = published st
   \<and> indices st' = indices st \<and> cachedIndices st' = cachedIndices st"
  by (auto simp: publish_one_def split: option.splits)

lemma publish_all_fields:
  "publish_all st xs = Some st' \<Longrightarrow> tailCached st < 2 ^ 16 \<Longrightarrow>
   tailCached st' = (tailCached st + length xs) mod 2 ^ 16 \<and> published st' = published st
   \<and> indices st' = indices st \<and> cachedIndices st' = cachedIndices st"
proof (induction xs arbitrary: st)
  case Nil
  then show ?case by simp
next
  case (Cons x xs)
  from Cons.prems(1) obtain s1 where 1: "publish_one st x = Some s1"
    and 2: "publish_all s1 xs = Some st'"
    by (auto split: option.splits)
  from publish_one_fields [OF 1]
  have f: "tailCached s1 = (tailCached st + 1) mod 2 ^ 16" "published s1 = published st"
    "indices s1 = indices st" "cachedIndices s1 = cachedIndices st" by simp_all
  then have "tailCached s1 < 2 ^ 16" by simp
  from Cons.IH [OF 2 this] f show ?case
    by (simp add: mod_simps)
qed

lemma returnIndexV2_inv:
  assumes "v2_inv st" "returnIndexV2 i st = Some st'"
  shows "v2_inv st'"
proof -
  from assms(1) have inv: "published st \<noteq> []" "last (published st) = tailCached st"
    "ring_tail st = tailCached st"
    "advances_by_batch (published st)" "tailCached st < 2 ^ 16"
    "cachedIndices st < 32" "length (indices st) = 32"
    by (simp_all add: v2_inv_def)
  let ?st1 = "st\<lparr>indices := (indices st)[cachedIndices st := i],
                     cachedIndices := cachedIndices st + 1\<rparr>"
  show ?thesis
  proof (cases "cachedIndices st + 1 < 32")
    case True
    with assms(2) inv have "st' = ?st1"
      by (simp add: returnIndexV2_def Let_def)
    with inv True show ?thesis by (simp add: v2_inv_def)
  next
    case False
    with assms(2) inv obtain st2 where
      p: "publish_all (?st1\<lparr>cachedIndices := 0\<rparr>) ((indices st)[cachedIndices st := i]) = Some st2"
      and st': "st' = st2\<lparr>ring_tail := tailCached st2,
                               published := published st2 @ [tailCached st2]\<rparr>"
      by (auto simp: returnIndexV2_def Let_def split: option.splits)
    have "tailCached (?st1\<lparr>cachedIndices := 0\<rparr>) < 2 ^ 16" using inv by simp
    from publish_all_fields [OF p this] inv
    have f: "tailCached st2 = (tailCached st + 32) mod 2 ^ 16" "published st2 = published st"
      "indices st2 = (indices st)[cachedIndices st := i]" "cachedIndices st2 = 0"
      by simp_all
    show ?thesis
      using inv f by (simp add: v2_inv_def st' advances_by_batch_snoc)
  qed
qed

lemma returnIndices_inv:
  "v2_inv st \<Longrightarrow> returnIndices st is = Some st' \<Longrightarrow> v2_inv st'"
proof (induction "is" arbitrary: st)
  case Nil
  then show ?case by simp
next
  case (Cons i "is")
  then show ?case
    by (auto split: option.splits dest: returnIndexV2_inv)
qed

lemma new_BufferProviderV2_inv:
  "new_BufferProviderV2 rx_cfg m ind = Some st \<Longrightarrow> length ind = 32 \<Longrightarrow> v2_inv st"
  by (auto simp: new_BufferProviderV2_def Let_def v2_inv_def split: option.splits if_splits)

lemma returnIndexV2_first:
  assumes "v2_inv st" "returnIndexV2 i st = Some st'"
  shows "hd (published st') = hd (published st)"
proof -
  from assms(1) have inv: "published st \<noteq> []" "tailCached st < 2 ^ 16"
    "cachedIndices st < 32" "length (indices st) = 32"
    by (simp_all add: v2_inv_def)
  let ?st1 = "st\<lparr>indices := (indices st)[cachedIndices st := i],
                     cachedIndices := cachedIndices st + 1\<rparr>"
  show ?thesis
  proof (cases "cachedIndices st + 1 < 32")
    case True
    with assms(2) inv have "st' = ?st1"
      by (simp add: returnIndexV2_def Let_def)
    then show ?thesis by simp
  next
    case False
    with assms(2) inv obtain st2 where
      p: "publish_all (?st1\<lparr>cachedIndices := 0\<rparr>) ((indices st)[cachedIndices st := i]) = Some st2"
      and st': "st' = st2\<lparr>ring_tail := tailCached st2,
                               published := published st2 @ [tailCached st2]\<rparr>"
      by (auto simp: returnIndexV2_def Let_def split: option.splits)
    have "tailCached (?st1\<lparr>cachedIndices := 0\<rparr>) < 2 ^ 16" using inv by simp
    from publish_all_fields [OF p this]
    have "published st2 = published st" by simp
    with inv(1) show ?thesis by (simp add: st')
  qed
qed

lemma returnIndices_first:
  "v2_inv st \<Longrightarrow> returnIndices st is = Some st' \<Longrightarrow> hd (published st') = hd (published st)"
proof (induction "is" arbitrary: st)
  case Nil
  then show ?case by simp
next
  case (Cons i "is")
  from Cons.prems(2) obtain s1 where 1: "returnIndexV2 i st = Some s1"
    and 2: "returnIndices s1 is = Some st'"
    by (auto split: option.splits)
  have "v2_inv s1" by (rule returnIndexV2_inv [OF Cons.prems(1) 1])
  from Cons.IH [OF this 2] returnIndexV2_first [OF Cons.prems(1) 1]
  show ?case by simp
qed

lemma new_BufferProviderV2_first:
  "new_BufferProviderV2 rx_cfg m ind = Some st \<Longrightarrow> published st = [buf_count st]"
  by (auto simp: new_BufferProviderV2_def Let_def split: option.splits if_splits)

lemma p65534: "new_BufferProviderV2 (default_config\<lparr>provided_buffer_count := 65534\<rparr>) (Some 0)
            [0, 0, 0, 0, 0, 0, 0, 0, 0, 0, 0, 0, 0, 0, 0, 0,
             0, 0, 0, 0, 0, 0, 0, 0, 0, 0, 0, 0, 0, 0, 0, 0] = Some provider_65534"
  by (simp add: provider_65534_def new_BufferProviderV2_def Let_def default_config_def)



lemma publish_one_ok:
  "idx < buf_count st \<Longrightarrow> \<exists>st'. publish_one st idx = Some st' \<and> buf_count st' = buf_count st"
  by (simp add: publish_one_def populate_def)

lemma publish_all_ok:
  "\<forall>x \<in> set xs. x < buf_count st \<Longrightarrow> \<exists>st'. publish_all st xs = Some st'"
proof (induction xs arbitrary: st)
  case Nil
  then show ?case by simp
next
  case (Cons x xs)
  then obtain s1 where 1: "publish_one st x = Some s1" "buf_count s1 = buf_count st"
    using publish_one_ok [of x st] by auto
  with Cons.prems have "\<forall>x \<in> set xs. x < buf_count s1" by simp
  from Cons.IH [OF this] 1 show ?case by simp
qed

lemma returnIndexV2_stage:
  assumes "length (indices st) = 32" "cachedIndices st + 1 < 32"
  shows "returnIndexV2 i st = Some (st\<lparr>indices := (indices st)[cachedIndices st := i],
                                         cachedIndices := cachedIndices st + 1\<rparr>)"
  using assms by (simp add: returnIndexV2_def Let_def)

lemma returnIndexV2_publish:
  assumes inv: "v2_inv st" and so: "staged_ok st" and i: "i < buf_count st"
    and full: "cachedIndices st = 31"
  shows "\<exists>st'. returnIndexV2 i st = Some st'
           \<and> published st' = published st @ [(tailCached st + 32) mod 2 ^ 16]"
proof -
  from inv have l: "length (indices st) = 32" and t: "tailCached st < 2 ^ 16"
    by (simp_all add: v2_inv_def)
  let ?ind = "(indices st)[cachedIndices st := i]"
  let ?st1 = "st\<lparr>indices := ?ind, cachedIndices := cachedIndices st + 1\<rparr>"
  have "\<forall>x \<in> set ?ind. x < buf_count st"
  proof
    fix x assume "x \<in> set ?ind"
    then obtain j where j: "j < 32" "x = ?ind ! j"
      using l by (auto simp: in_set_conv_nth)
    show "x < buf_count st"
    proof (cases "j = 31")
      case True
      with j l full i show ?thesis by simp
    next
      case False
      with j have "j < cachedIndices st" using full by simp
      with so j l full show ?thesis by (simp add: staged_ok_def)
    qed
  qed
  then have "\<forall>x \<in> set ?ind. x < buf_count (?st1\<lparr>cachedIndices := 0\<rparr>)" by simp
  from publish_all_ok [OF this]
  obtain st2 where p: "publish_all (?st1\<lparr>cachedIndices := 0\<rparr>) ?ind = Some st2" by blast
  have "tailCached (?st1\<lparr>cachedIndices := 0\<rparr>) < 2 ^ 16" using t by simp
  from publish_all_fields [OF p this] l
  have f: "tailCached st2 = (tailCached st + 32) mod 2 ^ 16" "published st2 = published st"
    by simp_all
  have "returnIndexV2 i st = Some (st2\<lparr>ring_tail := tailCached st2,
                               published := published st2 @ [tailCached st2]\<rparr>)"
    using l full p by (simp add: returnIndexV2_def Let_def)
  with f show ?thesis by simp
qed

lemma returnIndices_fill:
  "v2_inv st \<Longrightarrow> staged_ok st \<Longrightarrow> \<forall>i \<in> set is. i < buf_count st \<Longrightarrow>
   cachedIndices st + length is = 32 \<Longrightarrow> is \<noteq> [] \<Longrightarrow>
   \<exists>st'. returnIndices st is = Some st'
        \<and> published st' = published st @ [(tailCached st + 32) mod 2 ^ 16]"
proof (induction "is" arbitrary: st)
  case Nil
  then show ?case by simp
next
  case (Cons i rest)
  show ?case
  proof (cases "rest = []")
    case True
    with Cons.prems have "cachedIndices st = 31" by simp
    from returnIndexV2_publish [OF Cons.prems(1,2) _ this, of i] Cons.prems(3) True
    show ?thesis by auto
  next
    case False
    let ?st1 = "st\<lparr>indices := (indices st)[cachedIndices st := i],
                   cachedIndices := cachedIndices st + 1\<rparr>"
    from Cons.prems(1) have l: "length (indices st) = 32" by (simp add: v2_inv_def)
    from False Cons.prems(4) have c: "cachedIndices st + 1 < 32" by (cases rest) auto
    have r: "returnIndexV2 i st = Some ?st1" by (rule returnIndexV2_stage [OF l c])
    have inv1: "v2_inv ?st1" by (rule returnIndexV2_inv [OF Cons.prems(1) r])
    have so1: "staged_ok ?st1"
      using Cons.prems(2,3) l c by (auto simp: staged_ok_def nth_list_update less_Suc_eq)
    have "\<exists>st'. returnIndices ?st1 rest = Some st'
        \<and> published st' = published ?st1 @ [(tailCached ?st1 + 32) mod 2 ^ 16]"
      using Cons.prems(3,4) False by (intro Cons.IH [OF inv1 so1]) simp_all
    with r show ?thesis by simp
  qed
qed

lemma provider_65534_fields:
  "buf_count provider_65534 = 65534" "tailCached provider_65534 = 65534"
  "published provider_65534 = [65534]" "cachedIndices provider_65534 = 0"
  by (simp_all add: provider_65534_def new_BufferProviderV2_def Let_def default_config_def)

text \<open>
  Claim C7, as stated, fails: a provider for 65534 buffers publishes the tail 65534 at
  construction; after 32 \<open>returnIndex\<close> calls it publishes 30, a smaller value.
\<close>

theorem published_tail_decreases:
  "new_BufferProviderV2 (default_config\<lparr>provided_buffer_count := 65534\<rparr>) (Some 0)
            [0, 0, 0, 0, 0, 0, 0, 0, 0, 0, 0, 0, 0, 0, 0, 0,
             0, 0, 0, 0, 0, 0, 0, 0, 0, 0, 0, 0, 0, 0, 0, 0] = Some provider_65534
   \<and> map_option published
        (returnIndices provider_65534
           [1, 2, 3, 4, 5, 6, 7, 8, 9, 10, 11, 12, 13, 14, 15, 16,
            17, 18, 19, 20, 21, 22, 23, 24, 25, 26, 27, 28, 29, 30, 31, 32])
       = Some [65534, 30]
   \<and> \<not> never_decreases [65534, 30]"
proof -
  have inv: "v2_inv provider_65534"
    by (rule new_BufferProviderV2_inv [OF p65534]) simp
  have so: "staged_ok provider_65534"
    by (simp add: staged_ok_def provider_65534_fields)
  have "\<exists>st'. returnIndices provider_65534
           [1, 2, 3, 4, 5, 6, 7, 8, 9, 10, 11, 12, 13, 14, 15, 16,
            17, 18, 19, 20, 21, 22, 23, 24, 25, 26, 27, 28, 29, 30, 31, 32] = Some st'
        \<and> published st' = published provider_65534 @ [(tailCached provider_65534 + 32) mod 2 ^ 16]"
    by (rule returnIndices_fill [OF inv so]) (simp_all add: provider_65534_fields)
  then have "map_option published
        (returnIndices provider_65534
           [1, 2, 3, 4, 5, 6, 7, 8, 9, 10, 11, 12, 13, 14, 15, 16,
            17, 18, 19, 20, 21, 22, 23, 24, 25, 26, 27, 28, 29, 30, 31, 32])
       = Some [65534, 30]"
    by (auto simp: provider_65534_fields)
  with p65534 show ?thesis by simp
qed

text \<open>
  Claim C7, amended: the published tail is a 16-bit ring index. Over any sequence of
  \<open>returnIndex\<close> calls after construction, the first published value is the buffer
  count, each later published value is the previously published value plus 32 (one batch)
  modulo \<open>2 ^ 16\<close>, and the last published value is the tail the kernel sees; the values
  wrap around instead of growing without bound.
\<close>

theorem published_tail_advances_by_batch:
  assumes "new_BufferProviderV2 rx_cfg m ind = Some st0" "length ind = 32"
    and "returnIndices st0 is = Some st"
  shows "published st \<noteq> [] \<and> hd (published st) = buf_count st0
         \<and> advances_by_batch (published st)
         \<and> last (published st) = ring_tail st"
proof -
  have inv0: "v2_inv st0" by (rule new_BufferProviderV2_inv [OF assms(1,2)])
  have "hd (published st) = hd (published st0)"
    by (rule returnIndices_first [OF inv0 assms(3)])
  then have "hd (published st) = buf_count st0"
    by (simp add: new_BufferProviderV2_first [OF assms(1)])
  with returnIndices_inv [OF inv0 assms(3)] show ?thesis
    by (simp add: v2_inv_def)
qed

theorem published_tail_advances_by_batch_witness:
  "\<exists>st. returnIndices provider_65534
           [1, 2, 3, 4, 5, 6, 7, 8, 9, 10, 11, 12, 13, 14, 15, 16,
            17, 18, 19, 20, 21, 22, 23, 24, 25, 26, 27, 28, 29, 30, 31, 32] = Some st
        \<and> published st = [65534, 30] \<and> hd (published st) = buf_count provider_65534
        \<and> advances_by_batch (published st)
        \<and> last (published st) = ring_tail st"
proof -
  have inv: "v2_inv provider_65534"
    by (rule new_BufferProviderV2_inv [OF p65534]) simp
  have so: "staged_ok provider_65534"
    by (simp add: staged_ok_def provider_65534_fields)
  have "\<exists>st'. returnIndices provider_65534
           [1, 2, 3, 4, 5, 6, 7, 8, 9, 10, 11, 12, 13, 14, 15, 16,
            17, 18, 19, 20, 21, 22, 23, 24, 25, 26, 27, 28, 29, 30, 31, 32] = Some st'
        \<and> published st' = published provider_65534 @ [(tailCached provider_65534 + 32) mod 2 ^ 16]"
    by (rule returnIndices_fill [OF inv so]) (simp_all add: provider_65534_fields)
  then obtain st where st: "returnIndices provider_65534
           [1, 2, 3, 4, 5, 6, 7, 8, 9, 10, 11, 12, 13, 14, 15, 16,
            17, 18, 19, 20, 21, 22, 23, 24, 25, 26, 27, 28, 29, 30, 31, 32] = Some st"
    and p: "published st = [65534, 30]"
    by (auto simp: provider_65534_fields)
  have l: "length [0::nat, 0, 0, 0, 0, 0, 0, 0, 0, 0, 0, 0, 0, 0, 0, 0,
             0, 0, 0, 0, 0, 0, 0, 0, 0, 0, 0, 0, 0, 0, 0, 0] = 32" by simp
  from published_tail_advances_by_batch [OF p65534 l st] st p show ?thesis by blast
qed

section \<open>Properties of \<open>processRead\<close>\<close>

text \<open>
  Claim C4: a read completion with \<open>res = -ENOBUFS\<close> makes the handler report the
  diagnostic and abort; it does nothing else, and in particular posts no read for any
  socket.
\<close>

theorem processRead_enobufs_fatal:
  "cqe_res cqe = - ENOBUFS \<Longrightarrow>
   processRead env cqe = ([Report ''not enough buffers, but will just requeue''], Aborts)
   \<and> (\<forall>s. AddRead s \<notin> set (fst (processRead env cqe)))"
  by (simp add: processRead_def didRead_def die_def ENOBUFS_def Let_def)

theorem processRead_enobufs_fatal_witness:
  "cqe_res cqe_enobufs = - ENOBUFS
   \<and> processRead env_running cqe_enobufs
       = ([Report ''not enough buffers, but will just requeue''], Aborts)"
proof -
  have e: "cqe_res cqe_enobufs = - ENOBUFS"
    by (simp add: cqe_enobufs_def ENOBUFS_def)
  from processRead_enobufs_fatal [OF e] e show ?thesis by blast
qed

section \<open>Properties of the classic buffer provider\<close>


lemma length_cells: "length (cells r) = r_count r"
  by (simp add: cells_def)

lemma m16: "(n::nat) < 2 ^ 16 \<Longrightarrow> n mod 2 ^ 16 = n"
  by simp

lemma merge_idx_cells:
  assumes "merge_idx r i = Some r'" and "r_count r + 1 < 2 ^ 16"
  shows "mset (cells r') = add_mset i (mset (cells r))"
proof (cases "int i = int (r_start r) - 1")
  case True
  then have s: "r_start r = Suc i" by arith
  from assms(1) True have "r' = r\<lparr>r_start := i, r_count := (r_count r + 1) mod 2 ^ 16\<rparr>"
    unfolding merge_idx_def by simp
  then have r': "r_start r' = i" "r_count r' = r_count r + 1"
    using m16 [OF assms(2)] by simp_all
  have "[i ..< i + (r_count r + 1)] = i # [Suc i ..< Suc i + r_count r]"
    using upt_conv_Cons [of i "i + (r_count r + 1)"] by simp
  then have "cells r' = i # cells r"
    unfolding cells_def r' s .
  then show ?thesis by simp
next
  case False
  with assms(1) have i: "i = r_start r + r_count r"
    and "r' = r\<lparr>r_count := (r_count r + 1) mod 2 ^ 16\<rparr>"
    unfolding merge_idx_def by (simp_all split: if_splits)
  then have r': "r_start r' = r_start r" "r_count r' = r_count r + 1"
    using m16 [OF assms(2)] by simp_all
  have "[r_start r ..< r_start r + (r_count r + 1)] = [r_start r ..< r_start r + r_count r] @ [i]"
    unfolding i by simp
  then have "cells r' = cells r @ [i]"
    unfolding cells_def r' .
  then show ?thesis by simp
qed


lemma merge_range_cells:
  assumes "merge_range a b = Some r" and "r_count a + r_count b < 2 ^ 16"
  shows "mset (cells r) = mset (cells a) + mset (cells b)"
proof (cases "r_start a + r_count a = r_start b")
  case True
  with assms(1) have "r = a\<lparr>r_count := (r_count a + r_count b) mod 2 ^ 16\<rparr>"
    unfolding merge_range_def by simp
  then have r: "r_start r = r_start a" "r_count r = r_count a + r_count b"
    using m16 [OF assms(2)] by simp_all
  have "[r_start a ..< r_start a + (r_count a + r_count b)]
        = [r_start a ..< r_start a + r_count a] @ [r_start b ..< r_start b + r_count b]"
    unfolding True [symmetric]
    using upt_add_eq_append [of "r_start a" "r_start a + r_count a" "r_count b"]
    by (simp only: add.assoc le_add1)
  then have "cells r = cells a @ cells b"
    unfolding cells_def r .
  then show ?thesis by simp
next
  case False
  with assms(1) have e: "r_start b + r_count b = r_start a"
    and "r = a\<lparr>r_count := (r_count a + r_count b) mod 2 ^ 16, r_start := r_start b\<rparr>"
    unfolding merge_range_def by (simp_all split: if_splits)
  then have r: "r_start r = r_start b" "r_count r = r_count a + r_count b"
    using m16 [OF assms(2)] by simp_all
  have "[r_start b ..< r_start b + (r_count a + r_count b)]
        = [r_start b ..< r_start b + r_count b] @ [r_start a ..< r_start a + r_count a]"
    unfolding e [symmetric]
    using upt_add_eq_append [of "r_start b" "r_start b + r_count b" "r_count a"]
    by (simp only: add.assoc le_add1 add.commute [of "r_count a" "r_count b"])
  then have "cells r = cells b @ cells a"
    unfolding cells_def r .
  then show ?thesis by simp
qed

lemma sum_r_count: "sum_list (map r_count rs) = length (all_cells rs)"
  by (induction rs) (simp_all add: all_cells_def length_cells)

lemma all_cells_append: "all_cells (xs @ ys) = all_cells xs @ all_cells ys"
  by (simp add: all_cells_def)

lemma all_cells_single: "all_cells [r] = cells r"
  by (simp add: all_cells_def)

lemma all_cells_Nil: "all_cells [] = []"
  by (simp add: all_cells_def)

lemma cells_new_Range: "i < 2 ^ 16 \<Longrightarrow> cells (new_Range i 1) = [i]"
  by (simp add: cells_def new_Range_def)


lemma returnIndex_Nil:
  "toProvide st = [] \<Longrightarrow> toProvide (returnIndex i st) = [new_Range i 1]"
  by (simp add: returnIndex_def)

lemma returnIndex_last:
  "toProvide st = rs @ [b] \<Longrightarrow> merge_idx b i = Some r \<Longrightarrow>
   toProvide (returnIndex i st) = rs @ [r]"
  by (simp add: returnIndex_def)

lemma returnIndex_single:
  "toProvide st = [b] \<Longrightarrow> merge_idx b i = None \<Longrightarrow>
   toProvide (returnIndex i st) = [b, new_Range i 1]"
  by (simp add: returnIndex_def)

lemma returnIndex_prev_merged:
  "toProvide st = rs @ [a, b] \<Longrightarrow> merge_idx b i = None \<Longrightarrow> merge_idx a i = Some r \<Longrightarrow>
   merge_range r b = Some r' \<Longrightarrow> toProvide (returnIndex i st) = rs @ [r']"
  by (simp add: returnIndex_def nth_append list_update_append butlast_append)

lemma returnIndex_prev:
  "toProvide st = rs @ [a, b] \<Longrightarrow> merge_idx b i = None \<Longrightarrow> merge_idx a i = Some r \<Longrightarrow>
   merge_range r b = None \<Longrightarrow> toProvide (returnIndex i st) = rs @ [r, b]"
  by (simp add: returnIndex_def nth_append list_update_append)

lemma returnIndex_push:
  "toProvide st = rs @ [a, b] \<Longrightarrow> merge_idx b i = None \<Longrightarrow> merge_idx a i = None \<Longrightarrow>
   toProvide (returnIndex i st) = rs @ [a, b, new_Range i 1]"
  by (simp add: returnIndex_def nth_append)


lemma cells_new_Range_Suc: "i < 65536 \<Longrightarrow> cells (new_Range i (Suc 0)) = [i]"
  using cells_new_Range [of i] by simp

lemma count_le_cells: "r \<in> set rs \<Longrightarrow> r_count r \<le> length (all_cells rs)"
proof (induction rs)
  case Nil
  then show ?case by simp
next
  case (Cons x xs)
  then show ?case by (auto simp: all_cells_def length_cells)
qed

lemma returnIndex_cells:
  assumes small: "length (all_cells (toProvide st)) + 1 < 2 ^ 16" and i: "i < 2 ^ 16"
  shows "mset (all_cells (toProvide (returnIndex i st)))
         = add_mset i (mset (all_cells (toProvide st)))"
proof (cases "toProvide st" rule: rev_cases)
  case Nil
  with i show ?thesis
    by (simp add: returnIndex_Nil all_cells_single all_cells_Nil cells_new_Range_Suc)
next
  case (snoc rs0 b)
  have cb: "r_count b \<le> length (all_cells (toProvide st))"
    by (rule count_le_cells) (simp add: snoc)
  show ?thesis
  proof (cases "merge_idx b i")
    case (Some r)
    have "r_count b + 1 < 2 ^ 16" using cb small by linarith
    from merge_idx_cells [OF Some this] show ?thesis
      by (simp add: returnIndex_last [OF snoc Some] snoc all_cells_append all_cells_single)
  next
    case None
    show ?thesis
    proof (cases rs0 rule: rev_cases)
      case Nil
      with snoc have tp: "toProvide st = [b]" by simp
      show ?thesis
        using i by (simp add: returnIndex_single [OF tp None] tp all_cells_def cells_new_Range_Suc)
    next
      case (snoc rs1 a)
      with \<open>toProvide st = rs0 @ [b]\<close> have tp: "toProvide st = rs1 @ [a, b]" by simp
      have ca: "r_count a + r_count b \<le> length (all_cells (toProvide st))"
        by (simp add: tp all_cells_def length_cells)
      show ?thesis
      proof (cases "merge_idx a i")
        case na: None
        show ?thesis
          using i by (simp add: returnIndex_push [OF tp None na] tp all_cells_def cells_new_Range_Suc)
      next
        case sa: (Some r)
        have "r_count a + 1 < 2 ^ 16" using ca small by linarith
        from merge_idx_cells [OF sa this]
        have r: "mset (cells r) = add_mset i (mset (cells a))" .
        then have "size (mset (cells r)) = size (add_mset i (mset (cells a)))" by simp
        then have cr: "r_count r = r_count a + 1" by (simp add: length_cells)
        show ?thesis
        proof (cases "merge_range r b")
          case None
          show ?thesis
            using r by (simp add: returnIndex_prev [OF tp \<open>merge_idx b i = None\<close> sa None] tp
                all_cells_def)
        next
          case (Some r')
          have "r_count r + r_count b < 2 ^ 16" using cr ca small by linarith
          from merge_range_cells [OF Some this] r
          show ?thesis
            by (simp add: returnIndex_prev_merged [OF tp \<open>merge_idx b i = None\<close> sa Some] tp
                all_cells_def)
        qed
      qed
    qed
  qed
qed


lemma mset_all_cells: "mset (all_cells rs) = sum_mset (image_mset (\<lambda>r. mset (cells r)) (mset rs))"
  by (induction rs) (simp_all add: all_cells_def)

lemma mset_all_cells_cong: "mset xs = mset ys \<Longrightarrow> mset (all_cells xs) = mset (all_cells ys)"
  by (simp add: mset_all_cells)

lemma coalesce_cells:
  "acc \<noteq> [] \<Longrightarrow> length (all_cells acc) + length (all_cells ps) < 2 ^ 16 \<Longrightarrow>
   mset (all_cells (coalesce acc ps)) = mset (all_cells acc) + mset (all_cells ps)"
proof (induction ps arbitrary: acc)
  case Nil
  then show ?case by (simp add: all_cells_Nil)
next
  case (Cons p ps)
  from Cons.prems(1) obtain acc0 a where acc: "acc = acc0 @ [a]"
    by (cases acc rule: rev_cases) auto
  have lp: "length (all_cells (p # ps)) = r_count p + length (all_cells ps)"
    by (simp add: all_cells_def length_cells)
  have la: "length (all_cells acc) = length (all_cells acc0) + r_count a"
    by (simp add: acc all_cells_def length_cells)
  show ?case
  proof (cases "merge_range a p")
    case None
    have "length (all_cells (acc @ [p])) + length (all_cells ps) < 2 ^ 16"
      using Cons.prems(2) by (simp add: all_cells_def)
    from Cons.IH [OF _ this] None show ?thesis
      by (simp add: acc all_cells_def)
  next
    case (Some r)
    have "r_count a + r_count p < 2 ^ 16" using Cons.prems(2) la lp by linarith
    from merge_range_cells [OF Some this]
    have r: "mset (cells r) = mset (cells a) + mset (cells p)" .
    then have "size (mset (cells r)) = size (mset (cells a) + mset (cells p))" by simp
    then have cr: "r_count r = r_count a + r_count p" by (simp add: length_cells)
    have "length (all_cells (acc0 @ [r])) + length (all_cells ps) < 2 ^ 16"
      using Cons.prems(2) la lp cr by (simp add: all_cells_def length_cells)
    from Cons.IH [OF _ this] Some r show ?thesis
      by (simp add: acc all_cells_def)
  qed
qed

lemma compact_keeps: "toProvideCount (compact st) = toProvideCount st"
  "lowWatermark (compact st) = lowWatermark st"
  by (simp_all add: compact_def Let_def split: option.splits)

lemma compact_cells:
  assumes "length (all_cells (toProvide st)) < 2 ^ 16"
  shows "mset (all_cells (toProvide (compact st))) = mset (all_cells (toProvide st))"
proof -
  let ?tp = "toProvide st"
  consider (short) "length ?tp \<le> 1" | (two) "length ?tp = 2" | (long) "2 < length ?tp"
    by linarith
  then show ?thesis
  proof cases
    case short
    then show ?thesis by (simp add: compact_def)
  next
    case two
    then obtain a b where tp: "?tp = [a, b]"
      by (cases ?tp; cases "tl ?tp") auto
    show ?thesis
    proof (cases "merge_range a b")
      case None
      with tp show ?thesis by (simp add: compact_def)
    next
      case (Some r)
      have "r_count a + r_count b < 2 ^ 16"
        using assms by (simp add: tp all_cells_def length_cells)
      from merge_range_cells [OF Some this] Some tp show ?thesis
        by (simp add: compact_def all_cells_def)
    qed
  next
    case long
    let ?s = "sort_key sortable ?tp"
    have ne: "?s \<noteq> []" using long by (cases ?tp) auto
    then have s: "?s = hd ?s # tl ?s" by simp
    have ms: "mset (all_cells ?s) = mset (all_cells ?tp)"
      by (rule mset_all_cells_cong) simp
    then have "length (all_cells ?s) = length (all_cells ?tp)"
      by (metis size_mset)
    then have "length (all_cells [hd ?s]) + length (all_cells (tl ?s)) < 2 ^ 16"
      using assms by (subst (asm) s) (simp add: all_cells_def)
    from coalesce_cells [OF _ this]
    have "mset (all_cells (coalesce [hd ?s] (tl ?s))) = mset (all_cells (hd ?s # tl ?s))"
      by (simp add: all_cells_def)
    with s ms have "mset (all_cells (coalesce [hd ?s] (tl ?s))) = mset (all_cells ?tp)"
      by simp
    with long show ?thesis by (simp add: compact_def Let_def)
  qed
qed


lemma pending_agrees_cells:
  "pending_agrees st = (toProvideCount st = int (length (all_cells (toProvide st))))"
  by (simp add: pending_agrees_def sum_r_count)

lemma returnIndex_count: "toProvideCount (returnIndex i st) = toProvideCount st + 1"
  by (simp add: returnIndex_def Let_def)

lemma new_BufferProviderV1_agrees:
  assumes "0 \<le> provided_buffer_count rx_cfg" "provided_buffer_count rx_cfg < 2 ^ 16"
    and "new_BufferProviderV1 rx_cfg = Some st0"
  shows "pending_agrees st0"
proof -
  have "provided_buffer_count rx_cfg mod 2 ^ 16 = provided_buffer_count rx_cfg"
    using assms(1,2) by simp
  moreover have "nat (provided_buffer_count rx_cfg) mod 2 ^ 16 = nat (provided_buffer_count rx_cfg)"
  proof (rule m16)
    have "int (nat (provided_buffer_count rx_cfg)) < int (2 ^ 16)" using assms(1,2) by simp
    then show "nat (provided_buffer_count rx_cfg) < 2 ^ 16" by (simp only: of_nat_less_iff)
  qed
  ultimately show ?thesis
    using assms(1,3)
    by (auto simp: new_BufferProviderV1_def Let_def pending_agrees_def new_Range_def
        split: if_splits)
qed

lemma returnIndex_agrees:
  assumes "pending_agrees st" "toProvideCount st < 2 ^ 16 - 1" "i < 2 ^ 16"
  shows "pending_agrees (returnIndex i st)"
proof -
  from assms(1,2) have "length (all_cells (toProvide st)) + 1 < 2 ^ 16"
    by (simp add: pending_agrees_cells)
  from returnIndex_cells [OF this assms(3)]
  have "size (mset (all_cells (toProvide (returnIndex i st))))
        = size (add_mset i (mset (all_cells (toProvide st))))" by simp
  then have "length (all_cells (toProvide (returnIndex i st)))
        = length (all_cells (toProvide st)) + 1" by simp
  with assms(1) show ?thesis
    by (simp add: pending_agrees_cells returnIndex_count)
qed

lemma compact_agrees:
  assumes "pending_agrees st" "toProvideCount st < 2 ^ 16"
  shows "pending_agrees (compact st)"
proof -
  from assms have "length (all_cells (toProvide st)) < 2 ^ 16"
    by (simp add: pending_agrees_cells)
  from compact_cells [OF this]
  have "size (mset (all_cells (toProvide (compact st))))
        = size (mset (all_cells (toProvide st)))" by simp
  with assms(1) show ?thesis
    by (simp add: pending_agrees_cells compact_keeps)
qed

lemma provide_agrees:
  assumes "pending_agrees st" "provide st = Inr (sqe, st')"
  shows "pending_agrees st'"
proof -
  from assms(2) have ne: "toProvide st \<noteq> []"
    and st': "st' = st\<lparr>toProvideCount := toProvideCount st - int (r_count (last (toProvide st))),
                       toProvide := butlast (toProvide st)\<rparr>"
    by (auto simp: provide_def Let_def split: if_splits)
  from ne obtain rs r where tp: "toProvide st = rs @ [r]"
    by (cases "toProvide st" rule: rev_cases) auto
  with assms(1) show ?thesis
    by (simp add: pending_agrees_def st')
qed

lemma new_pool_4:
  "new_BufferProviderV1 (default_config\<lparr>provided_buffer_count := 4,
       provided_buffer_low_watermark := 1\<rparr>) = Some pool_4"
  by (simp add: new_BufferProviderV1_def default_config_def addAlignment_def new_Range_def
      pool_4_def Let_def)

lemma provide_pool_4:
  "provide pool_4
     = Inr (\<lparr>sqe_buffer = 0, sqe_len = 4096, sqe_nr = 4, sqe_bgid = 1, sqe_bid = 0,
              sqe_skip_success = True\<rparr>, pool_4_published)"
  by (simp add: provide_def pool_4_def pool_4_published_def Let_def kBgid_def)


lemma merge_idx_count:
  assumes "merge_idx r i = Some r'" and "r_count r + 1 < 2 ^ 16"
  shows "r_count r' = r_count r + 1"
proof -
  from merge_idx_cells [OF assms]
  have "size (mset (cells r')) = size (add_mset i (mset (cells r)))" by simp
  then show ?thesis by (simp add: length_cells)
qed

lemma merge_range_count:
  assumes "merge_range a b = Some r" and "r_count a + r_count b < 2 ^ 16"
  shows "r_count r = r_count a + r_count b"
proof -
  from merge_range_cells [OF assms]
  have "size (mset (cells r)) = size (mset (cells a) + mset (cells b))" by simp
  then show ?thesis by (simp add: length_cells)
qed

lemma new_Range_count: "r_count (new_Range i (Suc 0)) = Suc 0"
  by (simp add: new_Range_def)

lemma returnIndex_nonempty:
  assumes small: "length (all_cells (toProvide st)) + 1 < 2 ^ 16"
    and pos: "nonempty_ranges (toProvide st)"
  shows "nonempty_ranges (toProvide (returnIndex i st))"
proof (cases "toProvide st" rule: rev_cases)
  case Nil
  then show ?thesis
    by (simp add: returnIndex_Nil nonempty_ranges_def new_Range_count)
next
  case (snoc rs0 b)
  have cb: "r_count b \<le> length (all_cells (toProvide st))"
    by (rule count_le_cells) (simp add: snoc)
  show ?thesis
  proof (cases "merge_idx b i")
    case (Some r)
    have "r_count b + 1 < 2 ^ 16" using cb small by linarith
    from merge_idx_count [OF Some this] pos show ?thesis
      by (simp add: returnIndex_last [OF snoc Some] snoc nonempty_ranges_def)
  next
    case None
    show ?thesis
    proof (cases rs0 rule: rev_cases)
      case Nil
      with snoc have tp: "toProvide st = [b]" by simp
      show ?thesis
        using pos by (simp add: returnIndex_single [OF tp None] tp nonempty_ranges_def
            new_Range_count)
    next
      case (snoc rs1 a)
      with \<open>toProvide st = rs0 @ [b]\<close> have tp: "toProvide st = rs1 @ [a, b]" by simp
      have ca: "r_count a + r_count b \<le> length (all_cells (toProvide st))"
        by (simp add: tp all_cells_def length_cells)
      show ?thesis
      proof (cases "merge_idx a i")
        case na: None
        show ?thesis
          using pos by (simp add: returnIndex_push [OF tp None na] tp nonempty_ranges_def
              new_Range_count)
      next
        case sa: (Some r)
        have "r_count a + 1 < 2 ^ 16" using ca small by linarith
        from merge_idx_count [OF sa this]
        have cr: "r_count r = r_count a + 1" .
        show ?thesis
        proof (cases "merge_range r b")
          case None
          show ?thesis
            using pos cr
            by (simp add: returnIndex_prev [OF tp \<open>merge_idx b i = None\<close> sa None] tp
                nonempty_ranges_def)
        next
          case (Some r')
          have "r_count r + r_count b < 2 ^ 16" using cr ca small by linarith
          from merge_range_count [OF Some this] pos cr
          show ?thesis
            by (simp add: returnIndex_prev_merged [OF tp \<open>merge_idx b i = None\<close> sa Some] tp
                nonempty_ranges_def)
        qed
      qed
    qed
  qed
qed

lemma fold_returnIndex:
  "length (all_cells (toProvide st)) + length is < 2 ^ 16 \<Longrightarrow> \<forall>i \<in> set is. i < 2 ^ 16 \<Longrightarrow>
   nonempty_ranges (toProvide st) \<Longrightarrow>
   mset (all_cells (toProvide (fold returnIndex is st))) = mset is + mset (all_cells (toProvide st))
   \<and> nonempty_ranges (toProvide (fold returnIndex is st))
   \<and> toProvideCount (fold returnIndex is st) = toProvideCount st + int (length is)
   \<and> lowWatermark (fold returnIndex is st) = lowWatermark st"
proof (induction "is" arbitrary: st)
  case Nil
  then show ?case by simp
next
  case (Cons i "is")
  let ?st = "returnIndex i st"
  have small: "length (all_cells (toProvide st)) + 1 < 2 ^ 16"
    using Cons.prems(1) by simp
  have i: "i < 2 ^ 16" using Cons.prems(2) by simp
  have c: "mset (all_cells (toProvide ?st)) = add_mset i (mset (all_cells (toProvide st)))"
    by (rule returnIndex_cells [OF small i])
  then have "size (mset (all_cells (toProvide ?st)))
             = size (add_mset i (mset (all_cells (toProvide st))))" by simp
  then have l: "length (all_cells (toProvide ?st)) = length (all_cells (toProvide st)) + 1"
    by simp
  have 1: "length (all_cells (toProvide ?st)) + length is < 2 ^ 16"
    using Cons.prems(1) l by simp
  have 2: "\<forall>i \<in> set is. i < 2 ^ 16" using Cons.prems(2) by simp
  have 3: "nonempty_ranges (toProvide ?st)"
    by (rule returnIndex_nonempty [OF small Cons.prems(3)])
  have w: "lowWatermark ?st = lowWatermark st" by (simp add: returnIndex_def Let_def)
  from Cons.IH [OF 1 2 3] c w show ?case
    by (simp add: returnIndex_count)
qed


lemma set_cells: "set (cells r) = {r_start r ..< r_start r + r_count r}"
  by (simp add: cells_def)

lemma set_all_cells: "set (all_cells rs) = (\<Union>r \<in> set rs. set (cells r))"
  by (simp add: all_cells_def)

lemma all_cells_Cons: "all_cells (r # rs) = cells r @ all_cells rs"
  by (simp add: all_cells_def)

lemma first_adjacent:
  assumes srt: "sorted (map r_start (x # ys))" and pos: "nonempty_ranges (x # ys)"
    and dist: "distinct (all_cells (x # ys))"
    and cov: "set (all_cells (x # ys)) = {lo ..< lo + length (all_cells (x # ys))}"
  shows "r_start x = lo" and "ys \<noteq> [] \<Longrightarrow> r_start (hd ys) = lo + r_count x"
proof -
  let ?all = "all_cells (x # ys)"
  have cx: "0 < r_count x" using pos by (simp add: nonempty_ranges_def)
  have len: "length ?all = r_count x + length (all_cells ys)"
    by (simp add: all_cells_Cons length_cells)
  have least: "r_start x \<le> r_start q" if "q \<in> set (x # ys)" for q
    using srt that by auto
  have own: "r_start q \<in> set ?all" if "q \<in> set (x # ys)" for q
  proof -
    from that pos have "0 < r_count q" by (auto simp: nonempty_ranges_def)
    then have "r_start q \<in> set (cells q)" by (simp add: set_cells)
    with that show ?thesis unfolding set_all_cells by blast
  qed
  have "lo \<in> set ?all" unfolding cov using cx len by simp
  then obtain q where q: "q \<in> set (x # ys)" "lo \<in> set (cells q)"
    unfolding set_all_cells by blast
  then have "r_start q \<le> lo" by (simp add: set_cells)
  with least [OF q(1)] have "r_start x \<le> lo" by simp
  moreover have "lo \<le> r_start x" using own [of x] unfolding cov by simp
  ultimately show sx: "r_start x = lo" by simp
  show "r_start (hd ys) = lo + r_count x" if "ys \<noteq> []"
  proof -
    from that obtain y ys' where ys: "ys = y # ys'" by (cases ys) auto
    have cy: "0 < r_count y" using pos by (simp add: nonempty_ranges_def ys)
    have "length (all_cells ys) = r_count y + length (all_cells ys')"
      by (simp add: ys all_cells_Cons length_cells)
    with len cy have "lo + r_count x \<in> set ?all" unfolding cov by simp
    moreover have "lo + r_count x \<notin> set (cells x)" by (simp add: set_cells sx)
    ultimately obtain q where q: "q \<in> set ys" "lo + r_count x \<in> set (cells q)"
      unfolding set_all_cells by auto
    then have "r_start q \<le> lo + r_count x" by (simp add: set_cells)
    moreover have "r_start y \<le> r_start q" using srt q(1) by (auto simp: ys)
    ultimately have le: "r_start y \<le> lo + r_count x" by simp
    have "set (cells x) \<inter> set (cells y) = {}"
      using dist by (auto simp: ys all_cells_Cons)
    moreover have "r_start y \<in> set (cells y)" using cy by (simp add: set_cells)
    ultimately have "r_start y \<notin> set (cells x)" by blast
    moreover have "lo \<le> r_start y" using own [of y] unfolding cov by (simp add: ys)
    ultimately have "lo + r_count x \<le> r_start y" by (simp add: set_cells sx)
    with le show ?thesis by (simp add: ys)
  qed
qed

lemma coalesce_adjacent:
  "sorted (map r_start (a # ps)) \<Longrightarrow> nonempty_ranges (a # ps) \<Longrightarrow>
   distinct (all_cells (a # ps)) \<Longrightarrow>
   set (all_cells (a # ps)) = {lo ..< lo + length (all_cells (a # ps))} \<Longrightarrow>
   length (all_cells (a # ps)) < 2 ^ 16 \<Longrightarrow>
   coalesce [a] ps = [\<lparr>r_start = lo, r_count = length (all_cells (a # ps))\<rparr>]"
proof (induction ps arbitrary: a)
  case Nil
  from first_adjacent(1) [OF Nil(1-4)] have "r_start a = lo" .
  then show ?case by (simp add: all_cells_def length_cells)
next
  case (Cons p ps)
  have sa: "r_start a = lo" by (rule first_adjacent(1) [OF Cons.prems(1-4)])
  have sp: "r_start p = lo + r_count a"
    using first_adjacent(2) [OF Cons.prems(1-4)] by simp
  have len: "length (all_cells (a # p # ps)) = r_count a + r_count p + length (all_cells ps)"
    by (simp add: all_cells_Cons length_cells)
  then have small: "r_count a + r_count p < 2 ^ 16" using Cons.prems(5) by linarith
  let ?a = "a\<lparr>r_count := (r_count a + r_count p) mod 2 ^ 16\<rparr>"
  have m: "merge_range a p = Some ?a"
    by (simp add: merge_range_def sa sp)
  from merge_range_count [OF m small] have ca: "r_count ?a = r_count a + r_count p" .
  have "cells ?a = [r_start a ..< r_start a + (r_count a + r_count p)]"
    unfolding cells_def ca by simp
  also have "\<dots> = [r_start a ..< r_start a + r_count a] @ [r_start p ..< r_start p + r_count p]"
    unfolding sp sa
    using upt_add_eq_append [of lo "lo + r_count a" "r_count p"]
    by (simp only: add.assoc le_add1)
  finally have "cells ?a = cells a @ cells p" by (simp add: cells_def)
  then have same: "all_cells (?a # ps) = all_cells (a # p # ps)"
    by (simp add: all_cells_Cons)
  have 1: "sorted (map r_start (?a # ps))" using Cons.prems(1) by auto
  have 2: "nonempty_ranges (?a # ps)"
    using Cons.prems(2) ca by (simp add: nonempty_ranges_def)
  have "coalesce [?a] ps = [\<lparr>r_start = lo, r_count = length (all_cells (?a # ps))\<rparr>]"
    using Cons.prems(3,4,5) by (intro Cons.IH [OF 1 2]) (simp_all only: same)
  with m same show ?case by simp
qed


lemma sortable_start:
  assumes "r_count b < 2 ^ 16" "sortable a \<le> sortable b"
  shows "r_start a \<le> r_start b"
proof (rule ccontr)
  assume "\<not> r_start a \<le> r_start b"
  then have "Suc (r_start b) \<le> r_start a" by simp
  then have "Suc (r_start b) * 2 ^ 16 \<le> r_start a * 2 ^ 16"
    by (rule mult_le_mono1)
  moreover have "sortable b < Suc (r_start b) * 2 ^ 16"
    using assms(1) by (simp add: sortable_def)
  moreover have "r_start a * 2 ^ 16 \<le> sortable a" by (simp add: sortable_def)
  ultimately show False using assms(2) by linarith
qed

lemma sorted_start:
  assumes "\<forall>r \<in> set rs. r_count r < 2 ^ 16" "sorted (map sortable rs)"
  shows "sorted (map r_start rs)"
proof -
  from assms(2) have "sorted_wrt (\<lambda>a b. sortable a \<le> sortable b) rs"
    by (simp add: sorted_map)
  then have "sorted_wrt (\<lambda>a b. r_start a \<le> r_start b) rs"
    by (rule sorted_wrt_mono_rel [rotated]) (use assms(1) sortable_start in blast)
  then show ?thesis by (simp add: sorted_map)
qed

lemma cells_of_range:
  assumes "mset (all_cells rs) = mset [0..<k]"
  shows "distinct (all_cells rs)" "set (all_cells rs) = {0 ..< 0 + length (all_cells rs)}"
    "length (all_cells rs) = k"
proof -
  show l: "length (all_cells rs) = k"
    using assms by (metis length_upt mset_eq_length minus_nat.diff_0)
  show "distinct (all_cells rs)"
    using assms by (metis distinct_upt mset_eq_imp_distinct_iff)
  have "set (all_cells rs) = set [0..<k]" using assms by (rule mset_eq_setD)
  then show "set (all_cells rs) = {0 ..< 0 + length (all_cells rs)}"
    by (simp add: l)
qed

lemma compact_full:
  assumes ms: "mset (all_cells (toProvide st)) = mset [0..<k]" and k: "0 < k" "k < 2 ^ 16"
    and pos: "nonempty_ranges (toProvide st)"
  shows "toProvide (compact st) = [\<lparr>r_start = 0, r_count = k\<rparr>]"
proof -
  let ?tp = "toProvide st"
  note c = cells_of_range [OF ms]
  consider (short) "length ?tp \<le> 1" | (two) "length ?tp = 2" | (long) "2 < length ?tp"
    by linarith
  then show ?thesis
  proof cases
    case short
    have "?tp \<noteq> []" using c(3) k(1) by (auto simp: all_cells_def)
    with short obtain r where tp: "?tp = [r]" by (cases ?tp) auto
    have "r_start r = 0"
      using c(1,2) pos by (intro first_adjacent(1) [of r "[]"]) (simp_all add: tp)
    moreover have "r_count r = k" using c(3) by (simp add: tp all_cells_def length_cells)
    ultimately have "r = \<lparr>r_start = 0, r_count = k\<rparr>" by simp
    with short tp show ?thesis by (simp add: compact_def)
  next
    case two
    then obtain a b where tp: "?tp = [a, b]"
      by (cases ?tp; cases "tl ?tp") auto
    have len: "r_count a + r_count b = k"
      using c(3) by (simp add: tp all_cells_def length_cells)
    have cb: "0 < r_count b" "0 < r_count a" using pos by (simp_all add: tp nonempty_ranges_def)
    have m: "(r_count a + r_count b) mod 2 ^ 16 = k" using len k(2) by simp
    have ra: "a\<lparr>r_count := k\<rparr> = \<lparr>r_start = r_start a, r_count = k\<rparr>"
      "a\<lparr>r_count := k, r_start := 0\<rparr> = \<lparr>r_start = 0, r_count = k\<rparr>"
      by (cases a; simp)+
    show ?thesis
    proof (cases "r_start a \<le> r_start b")
      case True
      then have s: "sorted (map r_start (a # [b]))" by simp
      have sa: "r_start a = 0" and "r_start (hd [b]) = 0 + r_count a"
        using first_adjacent [OF s, of 0] c(1,2) pos by (simp_all add: tp)
      then have "merge_range a b = Some \<lparr>r_start = 0, r_count = k\<rparr>"
        unfolding merge_range_def m by (simp add: ra)
      then show ?thesis by (simp add: compact_def tp)
    next
      case False
      then have s: "sorted (map r_start (b # [a]))" by simp
      have ms': "mset (all_cells (b # [a])) = mset [0..<k]"
        using ms by (simp add: tp all_cells_def add.commute)
      note c' = cells_of_range [OF ms']
      have p': "nonempty_ranges (b # [a])" using pos by (auto simp: tp nonempty_ranges_def)
      have sb: "r_start b = 0" and sa: "r_start (hd [a]) = 0 + r_count b"
        using first_adjacent [OF s p' c'(1,2)] by simp_all
      have "merge_range a b = Some \<lparr>r_start = 0, r_count = k\<rparr>"
        unfolding merge_range_def m using sa sb cb by (simp add: ra)
      then show ?thesis by (simp add: compact_def tp)
    qed
  next
    case long
    let ?s = "sort_key sortable ?tp"
    have ne: "?s \<noteq> []" using long by (cases ?tp) auto
    then have s: "hd ?s # tl ?s = ?s" by simp
    have ms': "mset (all_cells ?s) = mset [0..<k]"
      using ms mset_all_cells_cong [of ?s ?tp] by simp
    note c' = cells_of_range [OF ms']
    have "\<forall>r \<in> set ?s. r_count r < 2 ^ 16"
    proof
      fix r assume "r \<in> set ?s"
      from count_le_cells [OF this] c'(3) k(2) show "r_count r < 2 ^ 16" by simp
    qed
    then have "sorted (map r_start ?s)" by (rule sorted_start) simp
    moreover have "nonempty_ranges ?s" using pos by (simp add: nonempty_ranges_def)
    ultimately have "coalesce [hd ?s] (tl ?s)
        = [\<lparr>r_start = 0, r_count = length (all_cells (hd ?s # tl ?s))\<rparr>]"
      using c' k(2) by (intro coalesce_adjacent) (simp_all only: s)
    then have "coalesce [hd ?s] (tl ?s) = [\<lparr>r_start = 0, r_count = k\<rparr>]"
      by (simp only: s c'(3))
    with long show ?thesis by (simp add: compact_def Let_def)
  qed
qed

text \<open>
  For a pool of at most 65535 buffers the counter \<open>toProvideCount_\<close> equals the sum of the
  range counts after construction, and the equality is preserved by \<open>returnIndex\<close> while
  fewer than 65535 buffers are in the free list, by \<open>compact\<close>, and by every \<open>provide\<close>
  that returns.
\<close>

lemma pending_agrees_preserved:
  "(0 \<le> provided_buffer_count rx_cfg \<and> provided_buffer_count rx_cfg < 2 ^ 16
      \<and> new_BufferProviderV1 rx_cfg = Some st0 \<longrightarrow> pending_agrees st0)
   \<and> (pending_agrees st \<and> toProvideCount st < 2 ^ 16 - 1 \<and> i < 2 ^ 16
        \<longrightarrow> pending_agrees (returnIndex i st))
   \<and> (pending_agrees st \<and> toProvideCount st < 2 ^ 16 \<longrightarrow> pending_agrees (compact st))
   \<and> (pending_agrees st \<and> provide st = Inr (sqe, st') \<longrightarrow> pending_agrees st')"
  using new_BufferProviderV1_agrees returnIndex_agrees compact_agrees provide_agrees
  by blast

text \<open>
  Claim C6 at a concrete input: constructed for 70000 buffers, the provider has the counter
  70000 and a free list of the one range \<open>Range(0, 70000)\<close>, whose 16-bit count is 4464; the
  counter is not the sum of the range counts, and the first \<open>provide\<close> fails the assertion
  of the source, \<open>toProvide_.size() != 0 || toProvideCount_ == 0\<close>. The constructor of the
  other provider rejects such a count.
\<close>

theorem oversized_pool_counter_disagrees:
  "new_BufferProviderV1 (default_config\<lparr>provided_buffer_count := 70000\<rparr>)
     = Some \<lparr>sizePerBuffer = 4096, buffers_size = 70000, toProvideCount = 70000,
             lowWatermark = - 1, toProvide = [\<lparr>r_start = 0, r_count = 4464\<rparr>],
             toProvide2 = []\<rparr>
   \<and> \<not> pending_agrees
         \<lparr>sizePerBuffer = 4096, buffers_size = 70000, toProvideCount = 70000,
          lowWatermark = - 1, toProvide = [\<lparr>r_start = 0, r_count = 4464\<rparr>],
          toProvide2 = []\<rparr>
   \<and> provide
         \<lparr>sizePerBuffer = 4096, buffers_size = 70000, toProvideCount = 70000,
          lowWatermark = - 1, toProvide = [\<lparr>r_start = 0, r_count = 4464\<rparr>],
          toProvide2 = []\<rparr> = Inl AssertionFailed
   \<and> new_BufferProviderV2 (default_config\<lparr>provided_buffer_count := 70000\<rparr>) (Some 0) [] = None"
  by (simp add: new_BufferProviderV1_def default_config_def addAlignment_def new_Range_def
      pending_agrees_def provide_def new_BufferProviderV2_def Let_def)

text \<open>
  Claim C5: for every \<open>k\<close> from 1 to 65535 and every permutation of the indices
  \<open>0, \<dots>, k - 1\<close>, returning them one by one to a provider with an empty free list and then
  calling \<open>compact\<close> leaves exactly the one range with start 0 and count \<open>k\<close>; the counter
  has grown by \<open>k\<close>, so \<open>needsToProvide\<close> holds exactly when the low watermark is below
  it. For the pool of four buffers with low watermark 1 and the order 2, 0, 3, 1 the
  free list is the range \<open>{start 0, count 4}\<close> and \<open>needsToProvide\<close> holds.
\<close>

theorem returned_permutation_coalesces:
  assumes "toProvide st = []" and "0 < k" and "k < 2 ^ 16" and "mset is = mset [0..<k]"
  shows "toProvide (compact (fold returnIndex is st)) = [\<lparr>r_start = 0, r_count = k\<rparr>]
         \<and> needsToProvide (compact (fold returnIndex is st))
             = (lowWatermark st < toProvideCount st + int k)"
proof -
  have l: "length is = k" using assms(4) by (metis length_upt mset_eq_length minus_nat.diff_0)
  have "set is = set [0..<k]" using assms(4) by (rule mset_eq_setD)
  then have b: "\<forall>i \<in> set is. i < 2 ^ 16" using assms(3) by auto
  have 1: "length (all_cells (toProvide st)) + length is < 2 ^ 16"
    using assms(1,3) l by (simp add: all_cells_def)
  have 2: "nonempty_ranges (toProvide st)" by (simp add: assms(1) nonempty_ranges_def)
  from fold_returnIndex [OF 1 b 2] assms(1,4)
  have f: "mset (all_cells (toProvide (fold returnIndex is st))) = mset [0..<k]"
    "nonempty_ranges (toProvide (fold returnIndex is st))"
    "toProvideCount (fold returnIndex is st) = toProvideCount st + int k"
    "lowWatermark (fold returnIndex is st) = lowWatermark st"
    by (simp_all add: all_cells_def l)
  from compact_full [OF f(1) assms(2,3) f(2)] f(3,4) show ?thesis
    by (simp add: needsToProvide_def compact_keeps)
qed

theorem returned_permutation_coalesces_witness:
  "toProvide (compact (fold returnIndex [2, 0, 3, 1] pool_4_published))
     = [\<lparr>r_start = 0, r_count = 4\<rparr>]
   \<and> needsToProvide (compact (fold returnIndex [2, 0, 3, 1] pool_4_published))"
proof -
  have 1: "toProvide pool_4_published = []" by (simp add: pool_4_published_def)
  have 2: "(0::nat) < 4" "(4::nat) < 2 ^ 16" by simp_all
  have 3: "mset [2, 0, 3, 1] = mset [0..<4::nat]" by (simp add: upt_rec eval_nat_numeral)
  from returned_permutation_coalesces [OF 1 2 3] show ?thesis
    by (simp add: pool_4_published_def pool_4_def)
qed

end
